theory Spec2Isabelle
  imports Main "HOL-Library.AList"
begin

section \<open>Resource archive: the data model of \<^verbatim>\<open>src/resource-archive/index.ts\<close>\<close>

text \<open>
  The archive maps a URL string, exactly as it came over the wire, to either a captured
  response or the error of a failed client command. \<open>Buffer.from(body, encoding)\<close> is a
  platform decoder; the model keeps its two arguments.
\<close>

type_synonym UrlString = string

datatype client_error = ClientError string

datatype encoding = Base64 | Utf8

datatype ArchiveResponse =
    Captured (statusCode: int) (statusText: "string option")
             (body: "string \<times> encoding") (contentType: "string option")
  | Failed (error: client_error)

type_synonym ResourceArchive = "UrlString \<rightharpoonup> ArchiveResponse"

text \<open>
  A parsed \<open>URL\<close> object, reduced to the two members the watcher reads: \<open>origin\<close> and
  the serialisation \<open>toString()\<close> (the href). The parser \<open>new URL(s)\<close> belongs to the
  platform; every definition below takes it as the parameter \<open>new_URL\<close>, where \<open>None\<close>
  stands for the \<open>TypeError\<close> the constructor throws on an invalid URL.
\<close>

record URL =
  origin :: string
  href :: string

text \<open>The field \<open>request.method\<close> is \<open>req_method\<close> here.\<close>

record Request =
  url :: UrlString
  req_method :: string

type_synonym HeaderEntry = "string \<times> string"

record requestPausedPayload =
  requestId :: string
  request :: Request
  responseStatusCode :: "int option"
  responseStatusText :: "string option"
  responseErrorReason :: "string option"
  responseHeaders :: "HeaderEntry list option"

text \<open>
  The two commands the handler sends. The flag of \<open>Fetch_continueRequest\<close> is
  \<open>interceptResponse\<close>; \<open>False\<close> stands for the payload \<open>{ requestId }\<close> without it.
\<close>

datatype command =
    Fetch_continueRequest string bool
  | Fetch_getResponseBody string

datatype reply = Reply (reply_body: string) (base64Encoded: bool)

type_synonym send_result = "client_error + reply"

datatype log_line =
    Log_client_error UrlString client_error
  | Log_requestPaused string string string bool
  | Log_response_error string

datatype exn =
    TypeError_invalid_URL UrlString
  | TypeError_undefined_find
  | TypeError_undefined_toString

text \<open>
  The fields of class \<open>Watcher\<close>, and two lists that record what the instance did to
  the outside: the lines it logged and the commands it sent through the client.
\<close>

record watcher =
  archive :: ResourceArchive
  allowedArchiveOrigins :: "string list"
  firstUrl :: "URL option"
  log_lines :: "log_line list"
  sent :: "command list"

definition Watcher :: "string list option \<Rightarrow> watcher" where
  "Watcher allowedDomains =
     \<lparr>archive = Map.empty,
      allowedArchiveOrigins =
        map (\<lambda>domain. ''https://'' @ domain)
          (case allowedDomains of None \<Rightarrow> [] | Some ds \<Rightarrow> ds),
      firstUrl = None,
      log_lines = [],
      sent = []\<rparr>"

definition setResponse :: "UrlString \<Rightarrow> ArchiveResponse \<Rightarrow> watcher \<Rightarrow> watcher" where
  "setResponse u response w = w\<lparr>archive := (archive w)(u \<mapsto> response)\<rparr>"

section \<open>Asynchronous handlers\<close>

text \<open>
  An \<open>async\<close> function runs until its next \<open>await\<close>, where it hands control back to the
  event loop. A \<open>task\<close> is what the function has become at such a point: it has returned,
  it has thrown an exception nobody catches, or it waits for the answer to a command
  and holds the code that runs on that answer, in the watcher state of that later
  moment. Each node carries the watcher state at the moment control is handed back.
\<close>

datatype task =
    Returned watcher
  | Threw watcher exn
  | Await watcher command "send_result \<Rightarrow> watcher \<Rightarrow> task"

text \<open>
  \<open>clientSend\<close>: the command goes out at once; on a rejection the handler logs, stores
  the error under the request's URL and returns \<open>null\<close> (here \<open>None\<close>) to its caller
  \<open>k\<close>.
\<close>

definition clientSend ::
  "Request \<Rightarrow> command \<Rightarrow> (reply option \<Rightarrow> watcher \<Rightarrow> task) \<Rightarrow> watcher \<Rightarrow> task" where
  "clientSend req cmd k w =
     Await (w\<lparr>sent := sent w @ [cmd]\<rparr>) cmd
       (\<lambda>res w'. case res of
          Inr r \<Rightarrow> k (Some r) w'
        | Inl err \<Rightarrow>
            k None (w'\<lparr>log_lines := log_lines w' @ [Log_client_error (url req) err],
                        archive := (archive w')(url req \<mapsto> Failed err)\<rparr>))"

subsection \<open>Tests on event fields\<close>

definition lower :: "char \<Rightarrow> char" where
  "lower c =
     (case map_of (zip ''ABCDEFGHIJKLMNOPQRSTUVWXYZ'' ''abcdefghijklmnopqrstuvwxyz'') c of
        Some l \<Rightarrow> l
      | None \<Rightarrow> c)"

fun contains :: "string \<Rightarrow> string \<Rightarrow> bool" where
  "contains p [] = (p = [])"
| "contains p (c # cs) = (take (length p) (c # cs) = p \<or> contains p cs)"

text \<open>\<open>request.method.match(/get/i)\<close>: the pattern has no anchors.\<close>

definition matches_get :: "string \<Rightarrow> bool" where
  "matches_get m = contains ''get'' (map lower m)"

text \<open>Truthiness of an optional number and of an optional string.\<close>

definition truthy_num :: "int option \<Rightarrow> bool" where
  "truthy_num v = (case v of None \<Rightarrow> False | Some n \<Rightarrow> n \<noteq> 0)"

definition truthy_str :: "string option \<Rightarrow> bool" where
  "truthy_str v = (case v of None \<Rightarrow> False | Some s \<Rightarrow> s \<noteq> [])"

definition find_content_type :: "HeaderEntry list \<Rightarrow> HeaderEntry option" where
  "find_content_type hs = find (\<lambda>(name, _). map lower name = ''content-type'') hs"

subsection \<open>\<open>requestPaused\<close>\<close>

text \<open>
  The part of \<open>requestPaused\<close> that runs once \<open>Fetch.getResponseBody\<close> has been
  answered (from \<open>if (result === null)\<close> to the end of the response branch). It runs
  in the watcher state of that moment: \<open>this.firstUrl\<close> and \<open>this.archive\<close> are read
  again, while \<open>requestUrl\<close> and \<open>isRequestFromAllowedDomain\<close> are locals computed
  before the \<open>await\<close>.
\<close>

definition capture ::
  "requestPausedPayload \<Rightarrow> URL \<Rightarrow> bool \<Rightarrow> reply option \<Rightarrow> watcher \<Rightarrow> task" where
  "capture ev requestUrl isRequestFromAllowedDomain result w =
     (case result of
        None \<Rightarrow> Returned w
      | Some r \<Rightarrow>
         (case responseHeaders ev of
            None \<Rightarrow> Threw w TypeError_undefined_find
          | Some hs \<Rightarrow>
             (case firstUrl w of
                None \<Rightarrow> Threw w TypeError_undefined_toString
              | Some f \<Rightarrow>
                 let contentTypeHeader = find_content_type hs;
                     isFirstRequest = (href requestUrl = href f);
                     w' = (if isRequestFromAllowedDomain \<and> \<not> isFirstRequest
                           then w\<lparr>archive := (archive w)(url (request ev) \<mapsto>
                                  Captured
                                    (case responseStatusCode ev of Some n \<Rightarrow> n | None \<Rightarrow> 0)
                                    (responseStatusText ev)
                                    (reply_body r, if base64Encoded r then Base64 else Utf8)
                                    (map_option snd contentTypeHeader))\<rparr>
                           else w)
                 in clientSend (request ev) (Fetch_continueRequest (requestId ev) False)
                      (\<lambda>_. Returned) w')))"

definition requestPaused ::
  "(UrlString \<Rightarrow> URL option) \<Rightarrow> requestPausedPayload \<Rightarrow> watcher \<Rightarrow> task" where
  "requestPaused new_URL ev w =
    (if \<not> matches_get (req_method (request ev)) then
       clientSend (request ev) (Fetch_continueRequest (requestId ev) False) (\<lambda>_. Returned) w
     else if responseStatusCode ev = Some 304 then
       clientSend (request ev) (Fetch_continueRequest (requestId ev) False) (\<lambda>_. Returned) w
     else
       case new_URL (url (request ev)) of
         None \<Rightarrow> Threw w (TypeError_invalid_URL (url (request ev)))
       | Some requestUrl \<Rightarrow>
          let first = (case firstUrl w of None \<Rightarrow> requestUrl | Some f \<Rightarrow> f);
              isRequestFromAllowedDomain =
                (origin requestUrl = origin first
                 \<or> origin requestUrl \<in> set (allowedArchiveOrigins w));
              w1 = w\<lparr>firstUrl := Some first,
                      log_lines := log_lines w @
                        [Log_requestPaused (href requestUrl)
                           (if truthy_num (responseStatusCode ev)
                               \<or> truthy_str (responseErrorReason ev)
                            then ''response'' else ''request'')
                           (href first) isRequestFromAllowedDomain]\<rparr>
          in
          if truthy_str (responseErrorReason ev) then
            clientSend (request ev) (Fetch_continueRequest (requestId ev) False)
              (\<lambda>_. Returned)
              (w1\<lparr>log_lines := log_lines w1 @
                     [Log_response_error
                        (case responseErrorReason ev of Some s \<Rightarrow> s | None \<Rightarrow> [])]\<rparr>)
          else if truthy_num (responseStatusCode ev) then
            (if responseStatusCode ev \<in> {Some 301, Some 302, Some 307, Some 308} then
               clientSend (request ev) (Fetch_continueRequest (requestId ev) True)
                 (\<lambda>_. Returned) w1
             else
               clientSend (request ev) (Fetch_getResponseBody (requestId ev))
                 (capture ev requestUrl isRequestFromAllowedDomain) w1)
          else
            clientSend (request ev) (Fetch_continueRequest (requestId ev) True)
              (\<lambda>_. Returned) w1)"

subsection \<open>One handler run to its end\<close>

text \<open>
  \<open>run client t\<close> answers every command the task sends from the function \<open>client\<close>
  until the task has returned or thrown: one handler with nothing else in between.
\<close>

datatype outcome = Completed | Uncaught exn

primrec run :: "(command \<Rightarrow> send_result) \<Rightarrow> task \<Rightarrow> watcher \<times> outcome" where
  "run client (Returned w) = (w, Completed)"
| "run client (Threw w x) = (w, Uncaught x)"
| "run client (Await w c k) = run client (k (client c) w)"


section \<open>The watcher on the event loop\<close>

text \<open>
  Several exchanges can be in flight at once: a handler that awaits a command gives way
  to the handlers of other events and is resumed when its command is answered. The
  system state is the watcher and the list of suspended handlers, each with the event
  it belongs to and the command it waits for. \<open>Deliver ev\<close> starts \<open>requestPaused\<close> on
  a new event; \<open>Answer i res\<close> answers the command of the \<open>i\<close>-th suspended handler
  with \<open>res\<close>, a rejection (\<open>Inl\<close>) or a result (\<open>Inr\<close>), and runs that handler to its
  next \<open>await\<close>. Any order of events and answers is a schedule. A handler that throws
  leaves the watcher as it was at the throw; later events are still handled.
\<close>


datatype action = Deliver requestPausedPayload | Answer nat send_result

type_synonym inflight = "(requestPausedPayload \<times> command \<times> (send_result \<Rightarrow> watcher \<Rightarrow> task)) list"

fun absorb :: "requestPausedPayload \<Rightarrow> task \<Rightarrow> inflight \<Rightarrow> watcher \<times> inflight" where
  "absorb ev (Returned w) ps = (w, ps)"
| "absorb ev (Threw w x) ps = (w, ps)"
| "absorb ev (Await w c k) ps = (w, ps @ [(ev, c, k)])"

fun act :: "(UrlString \<Rightarrow> URL option) \<Rightarrow> watcher \<times> inflight \<Rightarrow> action \<Rightarrow> watcher \<times> inflight" where
  "act new_URL (w, ps) (Deliver ev) = absorb ev (requestPaused new_URL ev w) ps"
| "act new_URL (w, ps) (Answer i res) =
     (if i < length ps then
        (case ps ! i of (ev, c, k) \<Rightarrow> absorb ev (k res w) (take i ps @ drop (Suc i) ps))
      else (w, ps))"

definition exec :: "(UrlString \<Rightarrow> URL option) \<Rightarrow> string list option \<Rightarrow> action list \<Rightarrow> watcher \<times> inflight" where
  "exec new_URL allowedDomains acts = foldl (act new_URL) (Watcher allowedDomains, []) acts"


subsection \<open>Which entries the archive can hold\<close>

text \<open>
  \<open>eligible\<close> is the condition under which \<open>capture\<close> stores a response: the URL parses,
  \<open>firstUrl\<close> is set, the origin is that of \<open>firstUrl\<close> or an allowed one, and the
  serialisation differs from that of \<open>firstUrl\<close>.
\<close>

definition eligible :: "(UrlString \<Rightarrow> URL option) \<Rightarrow> watcher \<Rightarrow> UrlString \<Rightarrow> bool" where
  "eligible new_URL w U =
     (\<exists>u f. new_URL U = Some u \<and> firstUrl w = Some f
        \<and> (origin u = origin f \<or> origin u \<in> set (allowedArchiveOrigins w))
        \<and> href u \<noteq> href f)"

definition is_Captured :: "ArchiveResponse option \<Rightarrow> bool" where
  "is_Captured r = (case r of Some (Captured _ _ _ _) \<Rightarrow> True | _ \<Rightarrow> False)"

definition good :: "(UrlString \<Rightarrow> URL option) \<Rightarrow> watcher \<Rightarrow> bool" where
  "good new_URL w = (\<forall>U. is_Captured (archive w U) \<longrightarrow> eligible new_URL w U)"

definition rely :: "watcher \<Rightarrow> watcher \<Rightarrow> bool" where
  "rely w w' = (allowedArchiveOrigins w' = allowedArchiveOrigins w
                \<and> (\<forall>f. firstUrl w = Some f \<longrightarrow> firstUrl w' = Some f))"

primrec ok :: "(UrlString \<Rightarrow> URL option) \<Rightarrow> task \<Rightarrow> watcher \<Rightarrow> bool" where
  "ok new_URL (Returned w) w0 = (good new_URL w \<and> rely w0 w)"
| "ok new_URL (Threw w x) w0 = (good new_URL w \<and> rely w0 w)"
| "ok new_URL (Await w c k) w0 =
     (good new_URL w \<and> rely w0 w
      \<and> (\<forall>res w'. good new_URL w' \<and> rely w w' \<longrightarrow> ok new_URL (k res w') w'))"

lemma rely_refl [simp]: "rely w w" by (simp add: rely_def)
lemma rely_trans: "rely a b \<Longrightarrow> rely b c \<Longrightarrow> rely a c" by (simp add: rely_def)

lemma rely_upd [simp]:
  "rely w0 (w\<lparr>sent := s\<rparr>) = rely w0 w"
  "rely w0 (w\<lparr>log_lines := l\<rparr>) = rely w0 w"
  "rely w0 (w\<lparr>archive := a\<rparr>) = rely w0 w"
  "rely (w\<lparr>sent := s\<rparr>) w1 = rely w w1"
  "rely (w\<lparr>log_lines := l\<rparr>) w1 = rely w w1"
  "rely (w\<lparr>archive := a\<rparr>) w1 = rely w w1"
  by (simp_all add: rely_def)

lemma eligible_upd [simp]:
  "eligible n (w\<lparr>sent := s\<rparr>) = eligible n w"
  "eligible n (w\<lparr>log_lines := l\<rparr>) = eligible n w"
  "eligible n (w\<lparr>archive := a\<rparr>) = eligible n w"
  by (simp_all add: eligible_def fun_eq_iff)

lemma good_upd [simp]:
  "good n (w\<lparr>sent := s\<rparr>) = good n w"
  "good n (w\<lparr>log_lines := l\<rparr>) = good n w"
  by (simp_all add: good_def)

lemma good_Failed: "good n w \<Longrightarrow> good n (w\<lparr>archive := (archive w)(u \<mapsto> Failed e)\<rparr>)"
  by (simp add: good_def is_Captured_def)

lemma good_Captured:
  "good n w \<Longrightarrow> eligible n w u \<Longrightarrow> good n (w\<lparr>archive := (archive w)(u \<mapsto> r)\<rparr>)"
  by (simp add: good_def)

lemma good_firstUrl:
  "good n w \<Longrightarrow> firstUrl w = Some f \<Longrightarrow> good n (w\<lparr>firstUrl := Some f\<rparr>)"
  by (simp add: good_def eligible_def)

lemma good_firstUrl_None:
  "good n w \<Longrightarrow> firstUrl w = None \<Longrightarrow> good n (w\<lparr>firstUrl := Some f\<rparr>)"
  by (auto simp add: good_def eligible_def split: option.splits)

lemma ok_rely: "ok n t w1 \<Longrightarrow> rely w0 w1 \<Longrightarrow> ok n t w0"
  by (cases t) (auto intro: rely_trans)

lemma ok_clientSend:
  assumes "good n w" "rely w0 w"
    and "\<And>r w'. good n w' \<Longrightarrow> rely w w' \<Longrightarrow> ok n (k r w') w'"
  shows "ok n (clientSend req cmd k w) w0"
proof -
  have "ok n (k None (w'\<lparr>log_lines := l, archive := (archive w')(u \<mapsto> Failed e)\<rparr>)) w'"
    if "good n w'" "rely w w'" for w' l u e
  proof (rule ok_rely)
    show "ok n (k None (w'\<lparr>log_lines := l, archive := (archive w')(u \<mapsto> Failed e)\<rparr>))
            (w'\<lparr>log_lines := l, archive := (archive w')(u \<mapsto> Failed e)\<rparr>)"
      using that good_Failed [of n "w'\<lparr>log_lines := l\<rparr>" u e] by (intro assms(3)) simp_all
  qed simp
  then show ?thesis
    using assms by (auto simp add: clientSend_def split: sum.splits)
qed

lemma ok_send_Returned:
  "good n w \<Longrightarrow> rely w0 w \<Longrightarrow> ok n (clientSend req cmd (\<lambda>_. Returned) w) w0"
  by (rule ok_clientSend) simp_all

lemma good_first:
  "good n w \<Longrightarrow>
   good n (w\<lparr>firstUrl := Some (case firstUrl w of None \<Rightarrow> u | Some f \<Rightarrow> f)\<rparr>)"
  by (cases "firstUrl w") (simp_all add: good_firstUrl good_firstUrl_None)

lemma rely_first:
  "rely w0 w \<Longrightarrow>
   rely w0 (w\<lparr>firstUrl := Some (case firstUrl w of None \<Rightarrow> u | Some f \<Rightarrow> f)\<rparr>)"
  by (auto simp add: rely_def)

lemma ok_capture:
  assumes "good n w2" "rely w1 w2" "n (url (request ev)) = Some requestUrl"
    and "firstUrl w1 = Some first"
    and "allowed \<longrightarrow> origin requestUrl = origin first
           \<or> origin requestUrl \<in> set (allowedArchiveOrigins w1)"
  shows "ok n (capture ev requestUrl allowed result w2) w2"
proof -
  have f2: "firstUrl w2 = Some first" and a2: "allowedArchiveOrigins w2 = allowedArchiveOrigins w1"
    using assms(2,4) by (simp_all add: rely_def)
  have "good n (if allowed \<and> href requestUrl \<noteq> href first
            then w2\<lparr>archive := (archive w2)(url (request ev) \<mapsto> r)\<rparr> else w2)" for r
    using assms f2 a2 by (auto simp add: eligible_def intro!: good_Captured)
  then show ?thesis
    using assms(1) f2
    by (auto simp add: capture_def Let_def split: option.splits intro!: ok_send_Returned)
qed

lemma ok_requestPaused:
  assumes g: "good n w"
  shows "ok n (requestPaused n ev w) w"
proof (cases "\<not> matches_get (req_method (request ev)) \<or> responseStatusCode ev = Some 304")
  case True
  then show ?thesis
    using g by (auto simp add: requestPaused_def intro: ok_send_Returned)
next
  case gate: False
  show ?thesis
  proof (cases "n (url (request ev))")
    case None
    then show ?thesis using gate g by (simp add: requestPaused_def)
  next
    case (Some requestUrl)
    define first where "first = (case firstUrl w of None \<Rightarrow> requestUrl | Some f \<Rightarrow> f)"
    define allowed where "allowed \<longleftrightarrow> origin requestUrl = origin first
        \<or> origin requestUrl \<in> set (allowedArchiveOrigins w)"
    define w1 where "w1 = w\<lparr>firstUrl := Some first,
        log_lines := log_lines w @
          [Log_requestPaused (href requestUrl)
             (if truthy_num (responseStatusCode ev) \<or> truthy_str (responseErrorReason ev)
              then ''response'' else ''request'')
             (href first) allowed]\<rparr>"
    define w1e where "w1e = w1\<lparr>log_lines := log_lines w1 @
          [Log_response_error (case responseErrorReason ev of Some s \<Rightarrow> s | None \<Rightarrow> [])]\<rparr>"
    have g1: "good n w1" and r1: "rely w w1"
      using g good_first [of n w requestUrl] rely_first [of w w requestUrl]
      by (simp_all add: w1_def first_def)
    have g1e: "good n w1e" and r1e: "rely w w1e"
      using g1 r1 by (simp_all add: w1e_def)
    have f1: "firstUrl w1 = Some first" and a1: "allowedArchiveOrigins w1 = allowedArchiveOrigins w"
      by (simp_all add: w1_def)
    have eq: "requestPaused n ev w =
       (if truthy_str (responseErrorReason ev) then
            clientSend (request ev) (Fetch_continueRequest (requestId ev) False)
              (\<lambda>_. Returned) w1e
          else if truthy_num (responseStatusCode ev) then
            (if responseStatusCode ev \<in> {Some 301, Some 302, Some 307, Some 308} then
               clientSend (request ev) (Fetch_continueRequest (requestId ev) True)
                 (\<lambda>_. Returned) w1
             else
               clientSend (request ev) (Fetch_getResponseBody (requestId ev))
                 (capture ev requestUrl allowed) w1)
          else
            clientSend (request ev) (Fetch_continueRequest (requestId ev) True)
              (\<lambda>_. Returned) w1)"
      using gate Some
      by (simp add: requestPaused_def Let_def first_def allowed_def w1_def w1e_def)
    have cap: "ok n (capture ev requestUrl allowed result w2) w2"
      if "good n w2" "rely w1 w2" for result w2
      using that Some f1 a1 by (intro ok_capture [where ?w1.0 = w1]) (auto simp add: allowed_def)
    show ?thesis
      unfolding eq using g1 r1 g1e r1e cap
      by (auto intro!: ok_send_Returned ok_clientSend simp del: insert_iff)
  qed
qed


definition sys_inv :: "(UrlString \<Rightarrow> URL option) \<Rightarrow> watcher \<Rightarrow> watcher \<times> inflight \<Rightarrow> bool" where
  "sys_inv n w0 s =
     (case s of (w, ps) \<Rightarrow>
        good n w \<and> rely w0 w
        \<and> (\<forall>(ev, c, k) \<in> set ps.
             \<exists>wp. rely wp w
               \<and> (\<forall>res w'. good n w' \<and> rely wp w' \<longrightarrow> ok n (k res w') w')))"

lemma sys_inv_absorb:
  assumes "sys_inv n w0 (w, ps)" "ok n t w" "set ps' \<subseteq> set ps"
  shows "sys_inv n w0 (absorb ev t ps')"
proof -
  have pend: "\<exists>wp. rely wp w1
               \<and> (\<forall>res w'. good n w' \<and> rely wp w' \<longrightarrow> ok n (k res w') w')"
    if "(e, c, k) \<in> set ps'" "rely w w1" for e c k w1
  proof -
    from that(1) assms(1,3) obtain wp where
      "rely wp w" "\<forall>res w'. good n w' \<and> rely wp w' \<longrightarrow> ok n (k res w') w'"
      by (fastforce simp add: sys_inv_def)
    with that(2) show ?thesis by (blast intro: rely_trans)
  qed
  have base: "rely w0 w" using assms(1) by (simp add: sys_inv_def)
  show ?thesis
  proof (cases t)
    case (Returned w1)
    then show ?thesis using assms(2) base pend
      by (auto simp add: sys_inv_def intro: rely_trans)
  next
    case (Threw w1 x)
    then show ?thesis using assms(2) base pend
      by (auto simp add: sys_inv_def intro: rely_trans)
  next
    case (Await w1 c k)
    then have "good n w1" "rely w w1"
      and "\<forall>res w'. good n w' \<and> rely w1 w' \<longrightarrow> ok n (k res w') w'"
      using assms(2) by simp_all
    moreover have "\<exists>wp. rely wp w1
        \<and> (\<forall>res w'. good n w' \<and> rely wp w' \<longrightarrow> ok n (k res w') w')"
      using calculation(3) rely_refl by blast
    ultimately show ?thesis using Await base pend
      by (auto simp add: sys_inv_def intro: rely_trans)
  qed
qed

lemma sys_inv_act:
  assumes "sys_inv n w0 s"
  shows "sys_inv n w0 (act n s a)"
proof (cases s)
  case (Pair w ps)
  show ?thesis
  proof (cases a)
    case (Deliver ev)
    have "good n w" using assms Pair by (simp add: sys_inv_def)
    then show ?thesis
      using assms Pair Deliver by (auto intro!: sys_inv_absorb ok_requestPaused)
  next
    case (Answer i res)
    show ?thesis
    proof (cases "i < length ps")
      case False
      then show ?thesis using assms Pair Answer by simp
    next
      case True
      obtain ev c k where p: "ps ! i = (ev, c, k)" by (cases "ps ! i") auto
      then have "(ev, c, k) \<in> set ps" using True by (metis nth_mem)
      then obtain wp where "rely wp w"
        and "\<forall>res w'. good n w' \<and> rely wp w' \<longrightarrow> ok n (k res w') w'"
        using assms Pair by (fastforce simp add: sys_inv_def)
      moreover have "good n w" using assms Pair by (simp add: sys_inv_def)
      ultimately have "ok n (k res w) w" by blast
      moreover have "set (take i ps @ drop (Suc i) ps) \<subseteq> set ps"
        by (auto dest: in_set_takeD in_set_dropD)
      ultimately have "sys_inv n w0 (absorb ev (k res w) (take i ps @ drop (Suc i) ps))"
        using assms Pair by (intro sys_inv_absorb) auto
      then show ?thesis using Pair Answer True p by simp
    qed
  qed
qed

lemma sys_inv_foldl: "sys_inv n w0 s \<Longrightarrow> sys_inv n w0 (foldl (act n) s acts)"
  by (induction acts arbitrary: s) (simp_all add: sys_inv_act)

lemma sys_inv_exec: "sys_inv n (Watcher ad) (exec n ad acts)"
  unfolding exec_def
  by (rule sys_inv_foldl) (simp add: sys_inv_def good_def is_Captured_def Watcher_def)

subsection \<open>What a failed command leaves behind\<close>













section \<open>Concrete exchanges\<close>

text \<open>
  The inputs at which the theorems below are instantiated. \<open>URL_table\<close> lists what
  \<open>new URL\<close> returns on the URLs used.
\<close>


definition URL_table :: "UrlString \<Rightarrow> URL option" where
  "URL_table = map_of
     [(''https://example.com/'',
         \<lparr>origin = ''https://example.com'', href = ''https://example.com/''\<rparr>),
      (''https://example.com/logo.png'',
         \<lparr>origin = ''https://example.com'', href = ''https://example.com/logo.png''\<rparr>),
      (''https://example.com/old'',
         \<lparr>origin = ''https://example.com'', href = ''https://example.com/old''\<rparr>)]"

definition ev_page :: requestPausedPayload where
  "ev_page = \<lparr>requestId = ''1'',
     request = \<lparr>url = ''https://example.com/'', req_method = ''GET''\<rparr>,
     responseStatusCode = None, responseStatusText = None,
     responseErrorReason = None, responseHeaders = None\<rparr>"

definition ev_logo :: requestPausedPayload where
  "ev_logo = \<lparr>requestId = ''2'',
     request = \<lparr>url = ''https://example.com/logo.png'', req_method = ''GET''\<rparr>,
     responseStatusCode = Some 200, responseStatusText = Some ''OK'',
     responseErrorReason = None,
     responseHeaders = Some [(''Content-Type'', ''image/png'')]\<rparr>"

definition ev_post :: requestPausedPayload where
  "ev_post = \<lparr>requestId = ''3'',
     request = \<lparr>url = ''https://api.other.test/submit'', req_method = ''POST''\<rparr>,
     responseStatusCode = None, responseStatusText = None,
     responseErrorReason = None, responseHeaders = None\<rparr>"

definition ev_moved :: requestPausedPayload where
  "ev_moved = \<lparr>requestId = ''4'',
     request = \<lparr>url = ''https://example.com/old'', req_method = ''GET''\<rparr>,
     responseStatusCode = Some 302, responseStatusText = Some ''Found'',
     responseErrorReason = None,
     responseHeaders = Some [(''Location'', ''/logo.png'')]\<rparr>"

definition network_down :: send_result where
  "network_down = Inl (ClientError ''Target closed'')"

definition ack :: send_result where
  "ack = Inr (Reply [] False)"

definition png_body :: send_result where
  "png_body = Inr (Reply ''iVBORw0KGgo='' True)"

definition ev_moved_post :: requestPausedPayload where
  "ev_moved_post = ev_moved\<lparr>request := \<lparr>url = ''https://example.com/old'', req_method = ''POST''\<rparr>\<rparr>"

definition ev_bare :: requestPausedPayload where
  "ev_bare = ev_logo\<lparr>responseHeaders := None\<rparr>"

lemmas watcher_eval =
  exec_def Watcher_def requestPaused_def capture_def clientSend_def matches_get_def
  lower_def truthy_num_def truthy_str_def find_content_type_def Let_def
  URL_table_def ev_page_def ev_logo_def ev_post_def ev_moved_def network_down_def png_body_def ack_def
  ev_moved_post_def ev_bare_def


section \<open>Properties of the watcher\<close>

text \<open>
  Claim C1, as amended. After any schedule of \<open>requestPaused\<close> events and command
  answers, a \<^emph>\<open>captured\<close> response is stored under a URL \<open>U\<close> only if \<open>U\<close> parses,
  \<open>firstUrl\<close> is set, the origin of \<open>U\<close> is that of \<open>firstUrl\<close> or one of the allowed
  origins (\<open>https://\<close> followed by a domain given to the constructor), and the
  serialisation of \<open>U\<close> differs from that of \<open>firstUrl\<close>; so a URL that parses to
  \<open>firstUrl\<close> never holds a captured response.
\<close>

theorem captured_only_if_eligible:
  assumes "archive (fst (exec new_URL allowedDomains acts)) U = Some (Captured sc st b ct)"
  shows "\<exists>u f. new_URL U = Some u
           \<and> firstUrl (fst (exec new_URL allowedDomains acts)) = Some f
           \<and> (origin u = origin f
                \<or> origin u \<in> (\<lambda>domain. ''https://'' @ domain)
                      ` (case allowedDomains of None \<Rightarrow> {} | Some ds \<Rightarrow> set ds))
           \<and> href u \<noteq> href f
           \<and> firstUrl (fst (exec new_URL allowedDomains acts)) \<noteq> new_URL U"
proof -
  obtain w ps where s: "exec new_URL allowedDomains acts = (w, ps)"
    by (cases "exec new_URL allowedDomains acts") auto
  have "sys_inv new_URL (Watcher allowedDomains) (w, ps)"
    using sys_inv_exec [of new_URL allowedDomains acts] s by simp
  then have "good new_URL w" "allowedArchiveOrigins w = allowedArchiveOrigins (Watcher allowedDomains)"
    by (simp_all add: sys_inv_def rely_def)
  moreover have "is_Captured (archive w U)"
    using assms s by (simp add: is_Captured_def)
  ultimately show ?thesis
    using s by (auto simp add: good_def eligible_def Watcher_def split: option.splits)
qed



theorem captured_only_if_eligible_witness:
  "archive (fst (exec URL_table None
       [Deliver ev_page, Answer 0 ack, Deliver ev_logo, Answer 0 png_body]))
     ''https://example.com/logo.png''
   = Some (Captured 200 (Some ''OK'') (''iVBORw0KGgo='', Base64) (Some ''image/png''))
   \<and> (\<exists>u f. URL_table ''https://example.com/logo.png'' = Some u
       \<and> firstUrl (fst (exec URL_table None
             [Deliver ev_page, Answer 0 ack, Deliver ev_logo, Answer 0 png_body])) = Some f
       \<and> origin u = origin f \<and> href u \<noteq> href f)"
proof -
  have h: "archive (fst (exec URL_table None
       [Deliver ev_page, Answer 0 ack, Deliver ev_logo, Answer 0 png_body]))
     ''https://example.com/logo.png''
   = Some (Captured 200 (Some ''OK'') (''iVBORw0KGgo='', Base64) (Some ''image/png''))"
    by (simp add: watcher_eval)
  show ?thesis
    using h captured_only_if_eligible [OF h] by auto
qed

text \<open>
  Claim C1 as stated fails for \<open>Failed\<close> entries: \<open>clientSend\<close> stores the error of a
  rejected command under the request's URL whatever its origin. The first page request
  itself gets an entry when its continue command is rejected, and so does a POST to a
  foreign origin, before \<open>firstUrl\<close> is even set.
\<close>

theorem entry_for_firstUrl_counterexample:
  "archive (fst (exec URL_table None [Deliver ev_page, Answer 0 network_down]))
     ''https://example.com/''
   = Some (Failed (ClientError ''Target closed''))
   \<and> firstUrl (fst (exec URL_table None [Deliver ev_page, Answer 0 network_down]))
     = URL_table ''https://example.com/''
   \<and> archive (fst (exec URL_table None [Deliver ev_post, Answer 0 network_down]))
     ''https://api.other.test/submit''
   = Some (Failed (ClientError ''Target closed''))
   \<and> firstUrl (fst (exec URL_table None [Deliver ev_post, Answer 0 network_down])) = None"
  by (simp add: watcher_eval)






text \<open>
  Claim C3, as amended. An event whose method has no occurrence of \<open>get\<close> in any letter
  case (POST, PUT, DELETE, HEAD, OPTIONS, PATCH among them) is continued unmodified:
  the handler sends the one command \<open>Fetch.continueRequest\<close> without
  \<open>interceptResponse\<close> and returns. It stores no captured response; the archive
  changes only when that command is rejected, by the \<open>Failed\<close> entry under the URL.
\<close>

theorem non_get_continued_uncaptured:
  assumes "\<not> matches_get (req_method (request ev))"
  shows "run client (requestPaused new_URL ev w) =
     (case client (Fetch_continueRequest (requestId ev) False) of
        Inr r \<Rightarrow>
          (w\<lparr>sent := sent w @ [Fetch_continueRequest (requestId ev) False]\<rparr>, Completed)
      | Inl e \<Rightarrow>
          (w\<lparr>sent := sent w @ [Fetch_continueRequest (requestId ev) False],
              log_lines := log_lines w @ [Log_client_error (url (request ev)) e],
              archive := (archive w)(url (request ev) \<mapsto> Failed e)\<rparr>, Completed))"
  using assms by (simp add: requestPaused_def clientSend_def split: sum.split)

theorem non_get_continued_uncaptured_witness:
  "\<not> matches_get (req_method (request ev_post))
   \<and> run (\<lambda>c. ack) (requestPaused URL_table ev_post (Watcher None))
     = (Watcher None\<lparr>sent := [Fetch_continueRequest ''3'' False]\<rparr>, Completed)"
proof -
  have h: "\<not> matches_get (req_method (request ev_post))"
    by (simp add: matches_get_def lower_def ev_post_def)
  show ?thesis
    using h non_get_continued_uncaptured [where new_URL = URL_table and ev = ev_post
        and client = "\<lambda>c. ack" and w = "Watcher None", OF h]
    by (simp add: ack_def ev_post_def Watcher_def)
qed

text \<open>
  The method test has no anchors: a method that merely contains \<open>get\<close> passes it.
\<close>

lemma matches_get_unanchored: "matches_get ''FORGET'' \<and> \<not> matches_get ''POST''"
  by (simp add: matches_get_def lower_def)

text \<open>
  Claim C3 as stated fails: a POST whose continue command is rejected leaves an archive
  entry under its URL.
\<close>

theorem non_get_entry_counterexample:
  "map lower (req_method (request ev_post)) = ''post''
   \<and> archive (fst (run (\<lambda>c. network_down) (requestPaused URL_table ev_post (Watcher None))))
        (url (request ev_post))
     = Some (Failed (ClientError ''Target closed''))"
  by (simp add: watcher_eval)

text \<open>
  Claim C4, as amended. For an event that passes the method test, has no error reason,
  a URL that parses and status 301, 302, 307 or 308, the handler sends the one command
  \<open>Fetch.continueRequest\<close> with \<open>interceptResponse\<close> set and returns. It stores no
  captured response; the archive changes only when that command is rejected, by the
  \<open>Failed\<close> entry under the URL.
\<close>

theorem redirect_deferred:
  assumes "matches_get (req_method (request ev))"
    and "responseStatusCode ev \<in> {Some 301, Some 302, Some 307, Some 308}"
    and "\<not> truthy_str (responseErrorReason ev)"
    and "new_URL (url (request ev)) = Some u"
  shows "snd (run client (requestPaused new_URL ev w)) = Completed
    \<and> sent (fst (run client (requestPaused new_URL ev w)))
        = sent w @ [Fetch_continueRequest (requestId ev) True]
    \<and> archive (fst (run client (requestPaused new_URL ev w)))
        = (case client (Fetch_continueRequest (requestId ev) True) of
             Inr r \<Rightarrow> archive w
           | Inl e \<Rightarrow> (archive w)(url (request ev) \<mapsto> Failed e))"
proof -
  have "truthy_num (responseStatusCode ev)" "responseStatusCode ev \<noteq> Some 304"
    using assms(2) by (auto simp add: truthy_num_def)
  then show ?thesis
    using assms
    by (simp add: requestPaused_def clientSend_def Let_def split: sum.split del: insert_iff)
qed

theorem redirect_deferred_witness:
  "matches_get (req_method (request ev_moved))
   \<and> responseStatusCode ev_moved \<in> {Some 301, Some 302, Some 307, Some 308}
   \<and> \<not> truthy_str (responseErrorReason ev_moved)
   \<and> URL_table (url (request ev_moved))
       = Some \<lparr>origin = ''https://example.com'', href = ''https://example.com/old''\<rparr>
   \<and> snd (run (\<lambda>c. ack) (requestPaused URL_table ev_moved (Watcher None))) = Completed
   \<and> sent (fst (run (\<lambda>c. ack) (requestPaused URL_table ev_moved (Watcher None))))
       = [Fetch_continueRequest ''4'' True]
   \<and> archive (fst (run (\<lambda>c. ack) (requestPaused URL_table ev_moved (Watcher None))))
       = Map.empty"
proof -
  have h1: "matches_get (req_method (request ev_moved))"
    by (simp add: matches_get_def lower_def ev_moved_def)
  have h2: "responseStatusCode ev_moved \<in> {Some 301, Some 302, Some 307, Some 308}"
    by (simp add: ev_moved_def)
  have h3: "\<not> truthy_str (responseErrorReason ev_moved)"
    by (simp add: truthy_str_def ev_moved_def)
  have h4: "URL_table (url (request ev_moved))
       = Some \<lparr>origin = ''https://example.com'', href = ''https://example.com/old''\<rparr>"
    by (simp add: URL_table_def ev_moved_def)
  show ?thesis
    using h1 h2 h3 h4 redirect_deferred [where new_URL = URL_table and ev = ev_moved
        and client = "\<lambda>c. ack" and w = "Watcher None", OF h1 h2 h3 h4]
    by (simp add: ack_def ev_moved_def Watcher_def)
qed

text \<open>
  Claim C4 as stated fails twice: a redirect whose continue command is rejected leaves
  an archive entry at that hop, and an event with status 302 whose method is POST is
  continued without \<open>interceptResponse\<close>.
\<close>

theorem redirect_counterexample:
  "responseStatusCode ev_moved = Some 302
   \<and> archive (fst (run (\<lambda>c. network_down) (requestPaused URL_table ev_moved (Watcher None))))
        (url (request ev_moved))
     = Some (Failed (ClientError ''Target closed''))
   \<and> responseStatusCode ev_moved_post = Some 302
   \<and> sent (fst (run (\<lambda>c. ack) (requestPaused URL_table ev_moved_post (Watcher None))))
     = [Fetch_continueRequest ''4'' False]"
  by (simp add: watcher_eval ev_moved_post_def)

text \<open>
  Claim C10. For an event that reaches the capture branch (it passes the method test,
  its status is present, not 0, not 304 and not a redirect, it has no error reason, its
  URL parses and the body fetch is answered), \<open>responseHeaders.find\<close> is evaluated
  without a test for presence: when \<open>responseHeaders\<close> is absent the handler throws a
  \<open>TypeError\<close>, having sent only \<open>Fetch.getResponseBody\<close>; it stores nothing and never
  continues the exchange.
\<close>

theorem absent_headers_throw:
  assumes "matches_get (req_method (request ev))"
    and "responseStatusCode ev = Some s"
    and "s \<notin> {0, 304, 301, 302, 307, 308}"
    and "\<not> truthy_str (responseErrorReason ev)"
    and "new_URL (url (request ev)) = Some u"
    and "client (Fetch_getResponseBody (requestId ev)) = Inr r"
    and "responseHeaders ev = None"
  shows "snd (run client (requestPaused new_URL ev w)) = Uncaught TypeError_undefined_find
    \<and> sent (fst (run client (requestPaused new_URL ev w)))
        = sent w @ [Fetch_getResponseBody (requestId ev)]
    \<and> archive (fst (run client (requestPaused new_URL ev w))) = archive w"
  using assms
  by (simp add: requestPaused_def clientSend_def capture_def Let_def truthy_num_def)

theorem absent_headers_throw_witness:
  "matches_get (req_method (request ev_bare))
   \<and> responseStatusCode ev_bare = Some 200
   \<and> (200::int) \<notin> {0, 304, 301, 302, 307, 308}
   \<and> \<not> truthy_str (responseErrorReason ev_bare)
   \<and> URL_table (url (request ev_bare))
       = Some \<lparr>origin = ''https://example.com'', href = ''https://example.com/logo.png''\<rparr>
   \<and> responseHeaders ev_bare = None
   \<and> snd (run (\<lambda>c. png_body) (requestPaused URL_table ev_bare (Watcher None)))
       = Uncaught TypeError_undefined_find
   \<and> sent (fst (run (\<lambda>c. png_body) (requestPaused URL_table ev_bare (Watcher None))))
       = [Fetch_getResponseBody ''2'']"
proof -
  have h1: "matches_get (req_method (request ev_bare))"
    by (simp add: matches_get_def lower_def ev_bare_def ev_logo_def)
  have h2: "responseStatusCode ev_bare = Some 200"
    by (simp add: ev_bare_def ev_logo_def)
  have h3: "(200::int) \<notin> {0, 304, 301, 302, 307, 308}" by simp
  have h4: "\<not> truthy_str (responseErrorReason ev_bare)"
    by (simp add: truthy_str_def ev_bare_def ev_logo_def)
  have h5: "URL_table (url (request ev_bare))
       = Some \<lparr>origin = ''https://example.com'', href = ''https://example.com/logo.png''\<rparr>"
    by (simp add: URL_table_def ev_bare_def ev_logo_def)
  have h6: "png_body = Inr (Reply ''iVBORw0KGgo='' True)"
    by (simp add: png_body_def)
  have h7: "responseHeaders ev_bare = None" by (simp add: ev_bare_def)
  show ?thesis
    using h1 h2 h3 h4 h5 h7 absent_headers_throw [where new_URL = URL_table and ev = ev_bare
        and client = "\<lambda>c. png_body" and w = "Watcher None", OF h1 h2 h3 h4 h5 h6 h7]
    by (simp add: ev_bare_def ev_logo_def Watcher_def)
qed


section \<open>\<open>Watcher.idle\<close>: the race of the timer and the network-idle wait\<close>



text \<open>
  \<open>idle\<close> arms a timer, starts \<open>page.waitForLoadState('networkidle')\<close>, chains a
  \<open>finally\<close> callback that clears the timer, and awaits the race of the two promises.
  What happens next is decided by the runtime: it runs the timer callback (not before
  the delay has passed) or it settles the load wait. The state below holds the timer,
  the four promises, the instant at which the awaited race settled (when \<open>idle\<close>
  returns or throws) and the warnings logged. Instants are in milliseconds since the
  call; a promise's reactions run within the step that settles it.
\<close>

datatype page_error = PageError string

datatype promise = Pending | Fulfilled | Rejected page_error

datatype timer = Armed nat | Fired | Cleared

datatype warning = Global_timeout_reached nat

record idle_state =
  globalNetworkTimerId :: timer
  globalNetworkTimeout :: promise
  waitForLoadState :: promise
  networkIdlePromise :: promise
  race :: promise
  returned_at :: "nat option"
  warnings :: "warning list"

text \<open>
  The state in which \<open>idle\<close> suspends at its \<open>await\<close>. The delay is the argument
  \<open>networkTimeoutMs\<close>; its default is a constant of \<^verbatim>\<open>src/constants\<close>, so the caller of the
  model passes the delay.
\<close>

definition idle :: "nat \<Rightarrow> idle_state" where
  "idle networkTimeoutMs =
     \<lparr>globalNetworkTimerId = Armed networkTimeoutMs,
      globalNetworkTimeout = Pending,
      waitForLoadState = Pending,
      networkIdlePromise = Pending,
      race = Pending,
      returned_at = None,
      warnings = []\<rparr>"

text \<open>\<open>Promise.race\<close> takes the outcome of the first input that settles.\<close>

definition settle_race :: "nat \<Rightarrow> promise \<Rightarrow> idle_state \<Rightarrow> idle_state" where
  "settle_race t p s = (if race s = Pending then s\<lparr>race := p, returned_at := Some t\<rparr> else s)"

text \<open>The function given to \<open>setTimeout\<close>: warn, then call the resolver.\<close>

definition timeout_callback :: "nat \<Rightarrow> nat \<Rightarrow> idle_state \<Rightarrow> idle_state" where
  "timeout_callback networkTimeoutMs t s =
     settle_race t Fulfilled
       (s\<lparr>warnings := warnings s @ [Global_timeout_reached networkTimeoutMs],
          globalNetworkTimeout := Fulfilled\<rparr>)"

definition clearTimeout :: "idle_state \<Rightarrow> idle_state" where
  "clearTimeout s =
     (case globalNetworkTimerId s of
        Armed due \<Rightarrow> s\<lparr>globalNetworkTimerId := Cleared\<rparr>
      | _ \<Rightarrow> s)"

text \<open>
  The load wait settles with \<open>p\<close>: the \<open>finally\<close> callback clears the timer, then
  \<open>networkIdlePromise\<close> settles the same way and the race sees it.
\<close>

definition load_settles :: "nat \<Rightarrow> promise \<Rightarrow> idle_state \<Rightarrow> idle_state" where
  "load_settles t p s =
     settle_race t p ((clearTimeout (s\<lparr>waitForLoadState := p\<rparr>))\<lparr>networkIdlePromise := p\<rparr>)"

text \<open>
  What the runtime can do at instant \<open>t\<close>: run the timer callback, if the timer is
  still armed and due; fulfil the load wait; reject it.
\<close>

datatype idle_event = Timer_due nat | Load_idle nat | Load_failed nat page_error

fun idle_step :: "nat \<Rightarrow> idle_state \<Rightarrow> idle_event \<Rightarrow> idle_state" where
  "idle_step ms s (Timer_due t) =
     (case globalNetworkTimerId s of
        Armed due \<Rightarrow>
          if due \<le> t then timeout_callback ms t (s\<lparr>globalNetworkTimerId := Fired\<rparr>) else s
      | _ \<Rightarrow> s)"
| "idle_step ms s (Load_idle t) =
     (if waitForLoadState s = Pending then load_settles t Fulfilled s else s)"
| "idle_step ms s (Load_failed t e) =
     (if waitForLoadState s = Pending then load_settles t (Rejected e) s else s)"

definition idle_run :: "nat \<Rightarrow> idle_event list \<Rightarrow> idle_state" where
  "idle_run ms es = foldl (idle_step ms) (idle ms) es"

lemmas idle_defs = settle_race_def timeout_callback_def clearTimeout_def load_settles_def

text \<open>The three shapes of a state: still racing, the timer has won, the load wait has won.\<close>

definition timer_won :: "nat \<Rightarrow> nat \<Rightarrow> promise \<Rightarrow> idle_state" where
  "timer_won ms t p =
     \<lparr>globalNetworkTimerId = Fired,
      globalNetworkTimeout = Fulfilled,
      waitForLoadState = p,
      networkIdlePromise = p,
      race = Fulfilled,
      returned_at = Some t,
      warnings = [Global_timeout_reached ms]\<rparr>"

definition load_won :: "nat \<Rightarrow> promise \<Rightarrow> idle_state" where
  "load_won t p =
     \<lparr>globalNetworkTimerId = Cleared,
      globalNetworkTimeout = Pending,
      waitForLoadState = p,
      networkIdlePromise = p,
      race = p,
      returned_at = Some t,
      warnings = []\<rparr>"

lemma step_idle:
  "idle_step ms (idle ms) (Timer_due t) = (if ms \<le> t then timer_won ms t Pending else idle ms)"
  "idle_step ms (idle ms) (Load_idle t) = load_won t Fulfilled"
  "idle_step ms (idle ms) (Load_failed t e) = load_won t (Rejected e)"
  by (simp_all add: idle_def idle_defs timer_won_def load_won_def)

lemma step_timer_won:
  "idle_step ms (timer_won ms t p) (Timer_due t') = timer_won ms t p"
  "idle_step ms (timer_won ms t p) (Load_idle t') =
     timer_won ms t (if p = Pending then Fulfilled else p)"
  "idle_step ms (timer_won ms t p) (Load_failed t' e) =
     timer_won ms t (if p = Pending then Rejected e else p)"
  by (simp_all add: idle_defs timer_won_def)

lemma step_load_won:
  "p \<noteq> Pending \<Longrightarrow> idle_step ms (load_won t p) ev = load_won t p"
  by (cases ev) (simp_all add: idle_defs load_won_def)

lemma foldl_load_won:
  "p \<noteq> Pending \<Longrightarrow> foldl (idle_step ms) (load_won t p) es = load_won t p"
  by (induction es) (simp_all add: step_load_won del: idle_step.simps)

lemma foldl_timer_won:
  "\<exists>p'. foldl (idle_step ms) (timer_won ms t p) es = timer_won ms t p'
        \<and> (p' = Pending \<longrightarrow> p = Pending)"
proof (induction es arbitrary: p)
  case Nil
  then show ?case by auto
next
  case (Cons ev es)
  obtain q where q: "idle_step ms (timer_won ms t p) ev = timer_won ms t q"
    and qp: "q = Pending \<longrightarrow> p = Pending"
    by (cases ev) (simp_all add: step_timer_won del: idle_step.simps)
  from Cons.IH [of q] q qp show ?case by (auto simp del: idle_step.simps)
qed

lemma idle_run_Cons: "idle_run ms (ev # es) = foldl (idle_step ms) (idle_step ms (idle ms) ev) es"
  by (simp add: idle_run_def)

lemma idle_run_shapes:
  "idle_run ms es = idle ms
   \<or> (\<exists>t p. ms \<le> t \<and> idle_run ms es = timer_won ms t p)
   \<or> (\<exists>t p. p \<noteq> Pending \<and> idle_run ms es = load_won t p)"
proof (induction es)
  case Nil
  then show ?case by (simp add: idle_run_def)
next
  case (Cons ev es)
  show ?case
  proof (cases ev)
    case (Timer_due t)
    show ?thesis
    proof (cases "ms \<le> t")
      case True
      then show ?thesis
        using foldl_timer_won [of ms t Pending es] Timer_due
        by (auto simp add: idle_run_Cons step_idle simp del: idle_step.simps)
    next
      case False
      then show ?thesis
        using Cons.IH Timer_due by (simp add: idle_run_Cons step_idle idle_run_def del: idle_step.simps)
    qed
  next
    case (Load_idle t)
    then show ?thesis
      using foldl_load_won [of Fulfilled ms t es]
      by (auto simp add: idle_run_Cons step_idle simp del: idle_step.simps)
  next
    case (Load_failed t e)
    then show ?thesis
      using foldl_load_won [of "Rejected e" ms t es]
      by (auto simp add: idle_run_Cons step_idle simp del: idle_step.simps)
  qed
qed


text \<open>The underlying waits still pending: the armed timer and the unsettled load wait.\<close>

definition pending_waits :: "idle_state \<Rightarrow> nat" where
  "pending_waits s =
     (case globalNetworkTimerId s of Armed due \<Rightarrow> 1 | _ \<Rightarrow> 0)
     + (if waitForLoadState s = Pending then 1 else 0)"

lemma idle_run_Timer_first:
  assumes "ms \<le> t"
  shows "\<exists>p. idle_run ms (Timer_due t # es) = timer_won ms t p
           \<and> (p = Pending \<or> (\<exists>ev \<in> set es. \<forall>t'. ev \<noteq> Timer_due t'))"
proof -
  have "\<exists>p'. foldl (idle_step ms) (timer_won ms t p) es = timer_won ms t p'
        \<and> (p' = p \<or> (\<exists>ev \<in> set es. \<forall>t'. ev \<noteq> Timer_due t'))" for p
  proof (induction es arbitrary: p)
    case Nil
    then show ?case by auto
  next
    case (Cons ev es)
    show ?case
    proof (cases ev)
      case (Timer_due t')
      then show ?thesis using Cons.IH [of p]
        by (auto simp add: step_timer_won simp del: idle_step.simps)
    next
      case (Load_idle t')
      then show ?thesis using Cons.IH [of "if p = Pending then Fulfilled else p"]
        by (auto simp add: step_timer_won simp del: idle_step.simps)
    next
      case (Load_failed t' e)
      then show ?thesis using Cons.IH [of "if p = Pending then Rejected e else p"]
        by (auto simp add: step_timer_won simp del: idle_step.simps)
    qed
  qed
  from this [of Pending] assms show ?thesis
    by (auto simp add: idle_run_Cons step_idle simp del: idle_step.simps)
qed

lemma idle_run_Load_first:
  "idle_run ms (Load_idle t # es) = load_won t Fulfilled"
  "idle_run ms (Load_failed t e # es) = load_won t (Rejected e)"
  by (simp_all add: idle_run_Cons step_idle foldl_load_won del: idle_step.simps)




text \<open>
  Claim C7, as amended. Once \<open>idle\<close> has returned or thrown, the timer is no longer
  pending, so at most one underlying wait is; when the network-idle wait settles first
  the timer is cleared and no wait is left; when the timer fires first the
  network-idle wait is not cancelled: it stays pending until it settles by itself.
\<close>

theorem idle_clears_timer_only:
  "(race (idle_run ms evs) \<noteq> Pending \<longrightarrow>
      pending_waits (idle_run ms evs) \<le> 1
      \<and> globalNetworkTimerId (idle_run ms evs) \<in> {Fired, Cleared})
   \<and> globalNetworkTimerId (idle_run ms (Load_idle t # es)) = Cleared
   \<and> globalNetworkTimerId (idle_run ms (Load_failed t e # es)) = Cleared
   \<and> pending_waits (idle_run ms (Load_idle t # es)) = 0
   \<and> (ms \<le> t \<longrightarrow> (\<forall>ev \<in> set es. \<exists>t'. ev = Timer_due t') \<longrightarrow>
        race (idle_run ms (Timer_due t # es)) = Fulfilled
        \<and> waitForLoadState (idle_run ms (Timer_due t # es)) = Pending
        \<and> pending_waits (idle_run ms (Timer_due t # es)) = 1)"
proof (intro conjI impI)
  assume r: "race (idle_run ms evs) \<noteq> Pending"
  from idle_run_shapes [of ms evs]
  show "pending_waits (idle_run ms evs) \<le> 1"
    using r by (auto simp add: idle_def timer_won_def load_won_def pending_waits_def)
  from idle_run_shapes [of ms evs]
  show "globalNetworkTimerId (idle_run ms evs) \<in> {Fired, Cleared}"
    using r by (auto simp add: idle_def timer_won_def load_won_def)
next
  show "globalNetworkTimerId (idle_run ms (Load_idle t # es)) = Cleared"
    and "globalNetworkTimerId (idle_run ms (Load_failed t e # es)) = Cleared"
    and "pending_waits (idle_run ms (Load_idle t # es)) = 0"
    by (simp_all add: idle_run_Load_first load_won_def pending_waits_def)
next
  assume "ms \<le> t" and only: "\<forall>ev \<in> set es. \<exists>t'. ev = Timer_due t'"
  then obtain p where p: "idle_run ms (Timer_due t # es) = timer_won ms t p"
    and "p = Pending \<or> (\<exists>ev \<in> set es. \<forall>t'. ev \<noteq> Timer_due t')"
    using idle_run_Timer_first by blast
  with only have "p = Pending" by blast
  then show "race (idle_run ms (Timer_due t # es)) = Fulfilled"
    and "waitForLoadState (idle_run ms (Timer_due t # es)) = Pending"
    and "pending_waits (idle_run ms (Timer_due t # es)) = 1"
    by (simp_all add: p timer_won_def pending_waits_def)
qed

theorem idle_clears_timer_only_witness:
  "race (idle_run 1000 [Load_idle 200, Timer_due 1000]) \<noteq> Pending
   \<and> pending_waits (idle_run 1000 [Load_idle 200, Timer_due 1000]) \<le> 1
   \<and> globalNetworkTimerId (idle_run 1000 [Load_idle 1000, Timer_due 1001]) = Cleared
   \<and> pending_waits (idle_run 1000 [Load_idle 1000, Timer_due 1001]) = 0
   \<and> (1000::nat) \<le> 1000
   \<and> race (idle_run 1000 [Timer_due 1000, Timer_due 1001]) = Fulfilled
   \<and> waitForLoadState (idle_run 1000 [Timer_due 1000, Timer_due 1001]) = Pending
   \<and> pending_waits (idle_run 1000 [Timer_due 1000, Timer_due 1001]) = 1"
proof -
  have r: "race (idle_run 1000 [Load_idle 200, Timer_due 1000]) \<noteq> Pending"
    by (simp add: idle_run_def idle_def idle_defs)
  have o: "\<forall>ev \<in> set [Timer_due 1001]. \<exists>t'. ev = Timer_due t'" by simp
  show ?thesis
    using r o
      idle_clears_timer_only [where ms = 1000 and evs = "[Load_idle 200, Timer_due 1000]"
        and t = 1000 and es = "[Timer_due 1001]" and e = "PageError []"]
    by simp
qed

text \<open>
  Claim C7 as stated fails in the direction of the timer: after the timer has fired
  and \<open>idle\<close> has returned, at 1000 ms, the network-idle wait is still pending, and it
  resolves on its own four seconds later.
\<close>

theorem idle_network_wait_counterexample:
  "race (idle_run 1000 [Timer_due 1000]) = Fulfilled
   \<and> returned_at (idle_run 1000 [Timer_due 1000]) = Some 1000
   \<and> waitForLoadState (idle_run 1000 [Timer_due 1000]) = Pending
   \<and> waitForLoadState (idle_run 1000 [Timer_due 1000, Load_idle 5000]) = Fulfilled"
  by (simp add: idle_run_def idle_def idle_defs)


section \<open>CSS \<open>url()\<close> substitution of \<^verbatim>\<open>src/write-archive/dom-snapshot.ts\<close>\<close>

text \<open>
  \<open>CSS_URL_REGEX = /url\((?!['"]?(?:data):)['"]?([^'")]*)['"]?\)/gi\<close>. The three classes
  the pattern moves through, a quote, the characters of the URL token and the closing
  parenthesis, are pairwise disjoint, so the greedy choice at each optional quote and
  at the token is the only one that can lead to a match: \<open>css_url_match\<close> takes it.
  With the flag \<open>i\<close> the letters of \<open>url(\<close> and of \<open>data:\<close> match in either case.
  \<open>css_url_match s\<close> tries the pattern at the start of \<open>s\<close> and returns the match in
  three parts, \<open>url(\<close> with the opening quote, the captured token, the closing quote
  with \<open>)\<close>, and the text after the match.
\<close>

definition is_quote :: "char \<Rightarrow> bool" where
  "is_quote c = (c = CHR 0x27 \<or> c = CHR 0x22)"

definition url_char :: "char \<Rightarrow> bool" where
  "url_char c = (\<not> is_quote c \<and> c \<noteq> CHR '')'')"

definition starts_ci :: "string \<Rightarrow> string \<Rightarrow> bool" where
  "starts_ci p s = (map lower (take (length p) s) = p)"

definition take_quote :: "string \<Rightarrow> string \<times> string" where
  "take_quote s =
     (case s of
        c # cs \<Rightarrow> if is_quote c then ([c], cs) else ([], s)
      | [] \<Rightarrow> ([], []))"

definition css_url_match :: "string \<Rightarrow> (string \<times> string \<times> string \<times> string) option" where
  "css_url_match s =
     (if starts_ci ''url('' s then
        let (q1, r1) = take_quote (drop 4 s) in
        if starts_ci ''data:'' r1 then None
        else
          let fullUrl = takeWhile url_char r1;
              (q2, r3) = take_quote (dropWhile url_char r1)
          in (case r3 of
                c # rest \<Rightarrow>
                  if c = CHR '')'' then Some (take 4 s @ q1, fullUrl, q2 @ '')'', rest)
                  else None
              | [] \<Rightarrow> None)
      else None)"

lemma take_quote_append: "take_quote s = (q, r) \<Longrightarrow> s = q @ r"
  by (auto simp add: take_quote_def split: list.splits if_splits)

lemma take_quote_length: "take_quote s = (q, r) \<Longrightarrow> length q \<le> 1"
  by (auto simp add: take_quote_def split: list.splits if_splits)

lemma css_url_match_append:
  assumes "css_url_match s = Some (p, t, q, rest)"
  shows "s = p @ t @ q @ rest"
proof -
  obtain q1 r1 where 1: "take_quote (drop 4 s) = (q1, r1)"
    by (cases "take_quote (drop 4 s)") auto
  obtain q2 r3 where 2: "take_quote (dropWhile url_char r1) = (q2, r3)"
    by (cases "take_quote (dropWhile url_char r1)") auto
  from assms 1 2 have "p = take 4 s @ q1" "t = takeWhile url_char r1" "q = q2 @ '')''"
    and "r3 = CHR '')'' # rest"
    by (auto simp add: css_url_match_def split: if_splits list.splits)
  moreover have "s = take 4 s @ drop 4 s" by simp
  moreover have "drop 4 s = q1 @ r1" using 1 by (rule take_quote_append)
  moreover have "r1 = takeWhile url_char r1 @ dropWhile url_char r1" by simp
  moreover have "dropWhile url_char r1 = q2 @ r3" using 2 by (rule take_quote_append)
  ultimately show ?thesis by (metis append.assoc append_Cons append_Nil)
qed

lemma css_url_match_shorter:
  "css_url_match s = Some (p, t, q, rest) \<Longrightarrow> length rest < length s"
proof -
  assume a: "css_url_match s = Some (p, t, q, rest)"
  then have "q \<noteq> []"
    by (auto simp add: css_url_match_def Let_def split: if_splits list.splits prod.splits)
  with css_url_match_append [OF a] show ?thesis by (cases q) auto
qed

text \<open>
  \<open>cssText.replace(CSS_URL_REGEX, replacer)\<close> with the flag \<open>g\<close>: the text is scanned
  from the left; a match is replaced by what \<open>replacer\<close> returns for the matched text
  and the captured token, and scanning resumes after the match.
\<close>

function replace_css_urls :: "(string \<Rightarrow> string \<Rightarrow> string) \<Rightarrow> string \<Rightarrow> string" where
  "replace_css_urls replacer [] = []"
| "replace_css_urls replacer (c # cs) =
     (case css_url_match (c # cs) of
        None \<Rightarrow> c # replace_css_urls replacer cs
      | Some (p, fullUrl, q, rest) \<Rightarrow>
          replacer (p @ fullUrl @ q) fullUrl @ replace_css_urls replacer rest)"
  by pat_completeness auto
termination
  by (relation "measure (\<lambda>(replacer, s). length s)")
     (auto dest: css_url_match_shorter)

text \<open>
  \<open>match.replace(fullUrl, mapped)\<close> with a string pattern: the first occurrence of the
  pattern in \<open>match\<close> is replaced, and in the replacement \<open>$$\<close>, \<open>$&\<close>, \<open>$`\<close> and
  \<open>$'\<close> stand for a dollar sign, the matched text, the text before and the text after
  it (there are no capture groups, so \<open>$1\<close> and the like stay as they are).
\<close>

fun index_of :: "string \<Rightarrow> string \<Rightarrow> nat option" where
  "index_of p [] = (if p = [] then Some 0 else None)"
| "index_of p (c # cs) =
     (if take (length p) (c # cs) = p then Some 0 else map_option Suc (index_of p cs))"

fun get_substitution :: "string \<Rightarrow> string \<Rightarrow> string \<Rightarrow> string \<Rightarrow> string" where
  "get_substitution matched preceding following (c # d # r) =
     (if c = CHR ''$'' then
        (if d = CHR ''$'' then CHR ''$'' # get_substitution matched preceding following r
         else if d = CHR ''&'' then matched @ get_substitution matched preceding following r
         else if d = CHR 0x60 then preceding @ get_substitution matched preceding following r
         else if d = CHR 0x27 then following @ get_substitution matched preceding following r
         else c # get_substitution matched preceding following (d # r))
      else c # get_substitution matched preceding following (d # r))"
| "get_substitution matched preceding following r = r"

definition js_replace :: "string \<Rightarrow> string \<Rightarrow> string \<Rightarrow> string" where
  "js_replace str searchValue replaceValue =
     (case index_of searchValue str of
        None \<Rightarrow> str
      | Some pos \<Rightarrow>
          take pos str
          @ get_substitution searchValue (take pos str)
              (drop (pos + length searchValue) str) replaceValue
          @ drop (pos + length searchValue) str)"

definition mapCssUrls :: "string \<Rightarrow> (string \<rightharpoonup> string) \<Rightarrow> string" where
  "mapCssUrls cssText sourceMap =
     replace_css_urls
       (\<lambda>match fullUrl.
          case sourceMap fullUrl of
            Some mapped \<Rightarrow> js_replace match fullUrl mapped
          | None \<Rightarrow> match)
       cssText"

lemmas css_eval = mapCssUrls_def js_replace_def css_url_match_def take_quote_def starts_ci_def
  url_char_def is_quote_def lower_def Let_def


section \<open>The snapshot tree of \<^verbatim>\<open>src/write-archive/dom-snapshot.ts\<close>\<close>

text \<open>
  A node of the serialised snapshot (\<open>serializedNodeWithId\<close> of rrweb-snapshot, whose
  declaration is not part of the repository): its identifier, its type, for an
  element the attributes in their order, each a string as in the data model of the
  specification, for a text node the content and the flag \<open>isStyle\<close>, the child list
  where the node has one, and whatever else the node carries (\<open>other\<close>), which the
  rewriter never reads. An assignment to an attribute that exists keeps its place in
  the object: \<open>AList.update\<close>.
\<close>

datatype NodeType = Document | DocumentType | Element | Text | CDATA | Comment

datatype 'x serializedNodeWithId =
  Node (node_id: int) (node_type: NodeType) (attributes: "(string \<times> string) list")
       (textContent: "string option") (isStyle: bool)
       (childNodes: "'x serializedNodeWithId list option") (other: 'x)

definition map_src :: "(string \<rightharpoonup> string) \<Rightarrow> (string \<times> string) list \<Rightarrow> (string \<times> string) list" where
  "map_src sourceMap attrs =
     (case map_of attrs ''src'' of
        Some sourceVal \<Rightarrow>
          if sourceVal \<noteq> [] then
            (case sourceMap sourceVal of
               Some mapped \<Rightarrow> AList.update ''src'' mapped attrs
             | None \<Rightarrow> attrs)
          else attrs
      | None \<Rightarrow> attrs)"

definition map_css_attribute ::
  "string \<Rightarrow> (string \<rightharpoonup> string) \<Rightarrow> (string \<times> string) list \<Rightarrow> (string \<times> string) list" where
  "map_css_attribute name sourceMap attrs =
     (case map_of attrs name of
        Some cssText \<Rightarrow>
          if cssText \<noteq> [] then AList.update name (mapCssUrls cssText sourceMap) attrs
          else attrs
      | None \<Rightarrow> attrs)"

fun mapNodeAttributes ::
  "'x serializedNodeWithId \<Rightarrow> (string \<rightharpoonup> string) \<Rightarrow> 'x serializedNodeWithId" where
  "mapNodeAttributes (Node i t attrs tc st cs x) sourceMap =
     (if t = Element then
        Node i t
          (map_css_attribute ''_cssText'' sourceMap
             (map_css_attribute ''style'' sourceMap (map_src sourceMap attrs)))
          tc st cs x
      else Node i t attrs tc st cs x)"

fun mapTextElement ::
  "'x serializedNodeWithId \<Rightarrow> (string \<rightharpoonup> string) \<Rightarrow> 'x serializedNodeWithId" where
  "mapTextElement (Node i t attrs tc st cs x) sourceMap =
     (if t = Text \<and> st then
        (case tc of
           Some text \<Rightarrow>
             if text \<noteq> [] then Node i t attrs (Some (mapCssUrls text sourceMap)) st cs x
             else Node i t attrs tc st cs x
         | None \<Rightarrow> Node i t attrs tc st cs x)
      else Node i t attrs tc st cs x)"

fun set_childNodes ::
  "'x serializedNodeWithId \<Rightarrow> 'x serializedNodeWithId list \<Rightarrow> 'x serializedNodeWithId" where
  "set_childNodes (Node i t attrs tc st cs x) children = Node i t attrs tc st (Some children) x"

lemma childNodes_mapped [simp]:
  "childNodes (mapTextElement (mapNodeAttributes node sourceMap) sourceMap) = childNodes node"
  by (cases node) (simp split: option.split)

lemma size_child:
  "child \<in> set children \<Longrightarrow> size child < Suc (Suc (size_list size children))"
proof -
  assume "child \<in> set children"
  then have "size child \<le> size_list size children"
    by (rule size_list_estimation') simp
  then show ?thesis by simp
qed

function mapNode ::
  "'x serializedNodeWithId \<Rightarrow> (string \<rightharpoonup> string) \<Rightarrow> 'x serializedNodeWithId" where
  "mapNode (Node i t attrs tc st cs x) sourceMap =
     (let node = mapNodeAttributes (Node i t attrs tc st cs x) sourceMap;
          node = mapTextElement node sourceMap
      in case childNodes node of
           Some children \<Rightarrow>
             set_childNodes node (map (\<lambda>childNode. mapNode childNode sourceMap) children)
         | None \<Rightarrow> node)"
  by pat_completeness auto
termination
  by (relation "measure (\<lambda>(node, sourceMap). size node)")
     (auto intro: size_child simp del: mapNodeAttributes.simps mapTextElement.simps)


text \<open>
  \<open>mapSourceEntries\<close> rewrites the tree of the snapshot object in place and returns its
  serialisation; \<open>JSON.stringify\<close> is the parameter \<open>stringify\<close>.
\<close>

record 'x DOMSnapshot =
  snapshot :: "'x serializedNodeWithId"

definition mapSourceEntries ::
  "('x serializedNodeWithId \<Rightarrow> string) \<Rightarrow> (string \<rightharpoonup> string) \<Rightarrow> 'x DOMSnapshot
   \<Rightarrow> string \<times> 'x DOMSnapshot" where
  "mapSourceEntries stringify sourceMap this =
     (let transformedSnapshot = mapNode (snapshot this) sourceMap
      in (stringify transformedSnapshot, this\<lparr>snapshot := transformedSnapshot\<rparr>))"

section \<open>The rewritten tree has the structure of the input\<close>

text \<open>
  \<open>skeleton\<close> forgets exactly what the rewriter may change: the values of \<open>src\<close>,
  \<open>style\<close> and \<open>_cssText\<close> of an element and the content of a text node flagged
  \<open>isStyle\<close>. Everything else of the tree is kept: identifiers, types, attribute names
  and their order, all other values, child lists.
\<close>

definition blank :: "(string \<times> string) list \<Rightarrow> (string \<times> string) list" where
  "blank attrs =
     map (\<lambda>(k, v). if k \<in> {''src'', ''style'', ''_cssText''} then (k, []) else (k, v)) attrs"

primrec skeleton :: "'x serializedNodeWithId \<Rightarrow> 'x serializedNodeWithId" where
  "skeleton (Node i t attrs tc st cs x) =
     Node i t
       (if t = Element then blank attrs else attrs)
       (if t = Text \<and> st then map_option (\<lambda>_. []) tc else tc)
       st (map_option (map skeleton) cs) x"

lemma blank_update:
  "k \<in> {''src'', ''style'', ''_cssText''} \<Longrightarrow> map_of attrs k = Some v
   \<Longrightarrow> blank (AList.update k v' attrs) = blank attrs"
  by (induction attrs) (auto simp add: blank_def)

lemma blank_map_src: "blank (map_src m attrs) = blank attrs"
  by (auto simp add: map_src_def blank_update split: option.splits)

lemma blank_map_css_attribute:
  "name \<in> {''style'', ''_cssText''} \<Longrightarrow> blank (map_css_attribute name m attrs) = blank attrs"
  by (auto simp add: map_css_attribute_def blank_update split: option.splits)

lemma skeleton_mapNodeAttributes: "skeleton (mapNodeAttributes node m) = skeleton node"
  by (cases node)
     (simp add: blank_map_css_attribute blank_map_src)

lemma skeleton_mapTextElement: "skeleton (mapTextElement node m) = skeleton node"
  by (cases node) (simp split: option.split)

lemma skeleton_set_childNodes:
  "childNodes node \<noteq> None \<Longrightarrow>
   skeleton (set_childNodes node children)
     = set_childNodes (skeleton node) (map skeleton children)"
  by (cases node) auto

lemma skeleton_childNodes: "childNodes (skeleton node) = map_option (map skeleton) (childNodes node)"
  by (cases node) simp

lemma set_childNodes_same: "childNodes node = Some cs \<Longrightarrow> set_childNodes node cs = node"
  by (cases node) simp

lemma skeleton_mapNode: "skeleton (mapNode node m) = skeleton node"
proof (induction node m rule: mapNode.induct)
  case (1 i t attrs tc st cs x m)
  define node where "node = mapTextElement (mapNodeAttributes (Node i t attrs tc st cs x) m) m"
  have sk: "skeleton node = skeleton (Node i t attrs tc st cs x)"
    by (simp only: node_def skeleton_mapTextElement skeleton_mapNodeAttributes)
  show ?case
  proof (cases "childNodes node")
    case None
    then show ?thesis using sk by (simp add: node_def Let_def)
  next
    case (Some children)
    have "map skeleton (map (\<lambda>childNode. mapNode childNode m) children) = map skeleton children"
      using "1.IH" [OF refl refl, of children] Some by (simp add: node_def)
    moreover have "mapNode (Node i t attrs tc st cs x) m
        = set_childNodes node (map (\<lambda>childNode. mapNode childNode m) children)"
      using Some by (simp add: node_def Let_def)
    ultimately have "skeleton (mapNode (Node i t attrs tc st cs x) m)
        = set_childNodes (skeleton node) (map skeleton children)"
      using Some by (simp only: skeleton_set_childNodes option.distinct not_False_eq_True)
    also have "\<dots> = skeleton node"
      using Some by (intro set_childNodes_same) (simp add: skeleton_childNodes)
    finally show ?thesis using sk by simp
  qed
qed

text \<open>
  Claim C8. The rewritten tree equals the input up to the values of \<open>src\<close>, \<open>style\<close>
  and \<open>_cssText\<close> of element nodes and the content of style-flagged text nodes: every
  node keeps its identifier and its type, every child list keeps its length and order,
  and nothing else differs.
\<close>

theorem mapNode_keeps_structure:
  "skeleton (mapNode node sourceMap) = skeleton node
   \<and> node_id (mapNode node sourceMap) = node_id node
   \<and> node_type (mapNode node sourceMap) = node_type node
   \<and> map_option length (childNodes (mapNode node sourceMap)) = map_option length (childNodes node)"
proof -
  have s: "skeleton (mapNode node sourceMap) = skeleton node" by (rule skeleton_mapNode)
  have "node_id (skeleton n) = node_id n" "node_type (skeleton n) = node_type n"
    "map_option length (childNodes (skeleton n)) = map_option length (childNodes n)"
    for n :: "'a serializedNodeWithId"
    by (cases n; simp add: option.map_comp comp_def)+
  then show ?thesis using s by metis
qed


section \<open>Rewriting twice\<close>

text \<open>
  When is a second pass of the rewriter without effect? The first pass splices mapped
  values into the text, so the second pass must read the text it finds as the first
  one left it: the same matches, each with its mapped token, and no others.
\<close>

subsection \<open>Letter case\<close>

lemma lower_fixed: "c \<notin> set ''ABCDEFGHIJKLMNOPQRSTUVWXYZ'' \<Longrightarrow> lower c = c"
  by (simp add: lower_def)

lemma lower_upper:
  "c \<in> set ''ABCDEFGHIJKLMNOPQRSTUVWXYZ''
   \<Longrightarrow> lower c \<in> set ''abcdefghijklmnopqrstuvwxyz''"
  by (auto simp add: lower_def)

lemma lower_symbol:
  assumes "d \<notin> set ''ABCDEFGHIJKLMNOPQRSTUVWXYZ''" "d \<notin> set ''abcdefghijklmnopqrstuvwxyz''"
  shows "lower c = d \<longleftrightarrow> c = d"
proof (cases "c \<in> set ''ABCDEFGHIJKLMNOPQRSTUVWXYZ''")
  case True
  then have "lower c \<noteq> d" "c \<noteq> d" using lower_upper [OF True] assms by auto
  then show ?thesis by simp
next
  case False
  then show ?thesis by (simp only: lower_fixed [OF False])
qed

lemma lower_paren [simp]: "lower c = CHR ''('' \<longleftrightarrow> c = CHR ''(''"
  by (rule lower_symbol) simp_all

lemma lower_delims [simp]:
  "lower (CHR 0x27) = CHR 0x27" "lower (CHR 0x22) = CHR 0x22" "lower (CHR '')'') = CHR '')''"
  "lower (CHR ''('') = CHR ''(''"
  by (simp_all add: lower_def)

lemma lower_not_url_char: "\<not> url_char d \<Longrightarrow> lower d = d"
  by (rule lower_fixed) (auto simp add: url_char_def is_quote_def)

lemma url_char_paren [simp]: "url_char (CHR ''('')"
  by (simp add: url_char_def is_quote_def)

lemma url_char_lower: "url_char (lower c) \<Longrightarrow> url_char c"
  by (cases "url_char c") (simp_all add: lower_not_url_char)

lemma take_quote_cases:
  obtains (none) "take_quote s = ([], s)" "s = [] \<or> \<not> is_quote (hd s)"
  | (quote) c r where "s = c # r" "is_quote c" "take_quote s = ([c], r)"
  by (cases s) (auto simp add: take_quote_def)

lemma take_quote_Cons:
  "take_quote (c # r) = (if is_quote c then ([c], r) else ([], c # r))"
  by (simp add: take_quote_def)

lemma take_quote_Nil [simp]: "take_quote [] = ([], [])"
  by (simp add: take_quote_def)

lemma starts_url: "starts_ci ''url('' s \<longleftrightarrow> map lower (take 4 s) = ''url(''"
  by (simp add: starts_ci_def numeral_eq_Suc)

lemma starts_data: "starts_ci ''data:'' s \<longleftrightarrow> map lower (take 5 s) = ''data:''"
  by (simp add: starts_ci_def numeral_eq_Suc)

lemma starts_url_length: "starts_ci ''url('' s \<Longrightarrow> 4 \<le> length s"
  by (auto simp add: starts_ci_def dest!: arg_cong [where f = length])

subsection \<open>The shape of a match\<close>

text \<open>
  \<open>url_open h\<close>: the four characters \<open>url(\<close> in any letter case. \<open>match_shape\<close>: the
  text after them as the pattern reads it, an optional quote, the token, an optional
  quote and \<open>)\<close>, with no \<open>data:\<close> in front of the token.
\<close>

definition url_open :: "string \<Rightarrow> bool" where
  "url_open h = (length h = 4 \<and> map lower h = ''url('')"

lemma url_open_take: "starts_ci ''url('' s \<Longrightarrow> url_open (take 4 s)"
  using starts_url_length [of s] by (simp add: url_open_def starts_url)

lemma url_open_starts: "url_open h \<Longrightarrow> starts_ci ''url('' (h @ r)"
  by (simp add: url_open_def starts_url)

lemma url_open_take_drop: "url_open h \<Longrightarrow> take 4 (h @ r) = h \<and> drop 4 (h @ r) = r"
  by (simp add: url_open_def)

definition match_shape :: "string \<Rightarrow> string \<Rightarrow> string \<Rightarrow> string \<Rightarrow> string \<Rightarrow> bool" where
  "match_shape q1 t q2 rest r =
     (r = q1 @ t @ q2 @ CHR '')'' # rest
      \<and> take_quote r = (q1, t @ q2 @ CHR '')'' # rest)
      \<and> (\<forall>c \<in> set t. url_char c)
      \<and> take_quote (q2 @ CHR '')'' # rest) = (q2, CHR '')'' # rest)
      \<and> \<not> starts_ci ''data:'' (t @ q2 @ CHR '')'' # rest))"

lemma css_url_match_shape:
  assumes "css_url_match s = Some (p, t, q, rest)"
  shows "\<exists>h q1 q2 r. s = h @ r \<and> p = h @ q1 \<and> q = q2 @ '')'' \<and> url_open h
           \<and> match_shape q1 t q2 rest r"
proof -
  obtain q1 r1 where 1: "take_quote (drop 4 s) = (q1, r1)"
    by (cases "take_quote (drop 4 s)") auto
  obtain q2 r3 where 2: "take_quote (dropWhile url_char r1) = (q2, r3)"
    by (cases "take_quote (dropWhile url_char r1)") auto
  from assms 1 2 have u: "starts_ci ''url('' s" and d: "\<not> starts_ci ''data:'' r1"
    and p: "p = take 4 s @ q1" and t: "t = takeWhile url_char r1" and q: "q = q2 @ '')''"
    and r3: "r3 = CHR '')'' # rest"
    by (auto simp add: css_url_match_def split: if_splits list.splits)
  have s4: "s = take 4 s @ drop 4 s" by simp
  have d4: "drop 4 s = q1 @ r1" using 1 by (rule take_quote_append)
  have r1: "r1 = t @ dropWhile url_char r1" using t by simp
  have dw: "dropWhile url_char r1 = q2 @ r3" using 2 by (rule take_quote_append)
  have r1': "r1 = t @ q2 @ CHR '')'' # rest" using r1 dw r3 by simp
  have "match_shape q1 t q2 rest (drop 4 s)"
    unfolding match_shape_def
  proof (intro conjI)
    show "drop 4 s = q1 @ t @ q2 @ CHR '')'' # rest" using d4 r1' by simp
    show "take_quote (drop 4 s) = (q1, t @ q2 @ CHR '')'' # rest)" using 1 r1' by simp
    show "\<forall>c \<in> set t. url_char c" using t by (auto dest: set_takeWhileD)
    show "take_quote (q2 @ CHR '')'' # rest) = (q2, CHR '')'' # rest)" using 2 dw r3 by simp
    show "\<not> starts_ci ''data:'' (t @ q2 @ CHR '')'' # rest)" using d r1' by simp
  qed
  then show ?thesis using s4 p q url_open_take [OF u] by blast
qed

lemma takeWhile_token:
  assumes "\<forall>c \<in> set t. url_char c"
    and "take_quote (q2 @ CHR '')'' # rest) = (q2, CHR '')'' # rest)"
  shows "takeWhile url_char (t @ q2 @ CHR '')'' # rest) = t"
    and "dropWhile url_char (t @ q2 @ CHR '')'' # rest) = q2 @ CHR '')'' # rest"
proof -
  have "\<not> url_char (hd (q2 @ CHR '')'' # rest))"
    using assms(2) by (cases q2) (auto simp add: take_quote_Cons url_char_def split: if_splits)
  then obtain d z where dz: "q2 @ CHR '')'' # rest = d # z" "\<not> url_char d"
    by (cases "q2 @ CHR '')'' # rest") auto
  show "takeWhile url_char (t @ q2 @ CHR '')'' # rest) = t"
    unfolding dz using assms(1) dz(2) by (simp add: takeWhile_append)
  show "dropWhile url_char (t @ q2 @ CHR '')'' # rest) = q2 @ CHR '')'' # rest"
    unfolding dz using assms(1) dz(2) by (simp add: dropWhile_append)
qed

lemma match_shape_match:
  assumes "url_open h" and "match_shape q1 t q2 rest r"
  shows "css_url_match (h @ r) = Some (h @ q1, t, q2 @ '')'', rest)"
proof -
  from assms(2) have q1: "take_quote r = (q1, t @ q2 @ CHR '')'' # rest)"
    and t: "\<forall>c \<in> set t. url_char c"
    and q2: "take_quote (q2 @ CHR '')'' # rest) = (q2, CHR '')'' # rest)"
    and d: "\<not> starts_ci ''data:'' (t @ q2 @ CHR '')'' # rest)"
    unfolding match_shape_def by blast+
  note tw = takeWhile_token [OF t q2]
  show ?thesis
    unfolding css_url_match_def
    by (simp only: url_open_starts [OF assms(1)] url_open_take_drop [OF assms(1)] if_True
        q1 Let_def prod.case d if_False tw q2 list.case refl)
qed


subsection \<open>The string replace of the callback\<close>

text \<open>
  A mapped value without \<open>$\<close> is inserted as it is. A key that is not empty, has no
  \<open>(\<close> and is no part of \<open>url\<close> (\<open>plain_key\<close>) does not occur in the match before
  the captured token, so the first occurrence is the token.
\<close>

lemma get_substitution_plain:
  "CHR ''$'' \<notin> set r \<Longrightarrow> get_substitution m a b r = r"
  by (induction m a b r rule: get_substitution.induct) auto

lemma index_of_here: "index_of k (k @ q) = Some 0"
proof (cases "k @ q")
  case Nil
  then show ?thesis by simp
next
  case (Cons a list)
  have "take (length k) (k @ q) = k" by simp
  then show ?thesis unfolding Cons by simp
qed

lemma index_of_skip:
  "take (length k) (c # s) \<noteq> k \<Longrightarrow> index_of k (c # s) = map_option Suc (index_of k s)"
  by simp

lemma take_before_paren:
  assumes "take (length k) (x @ CHR ''('' # y) = k" and "CHR ''('' \<notin> set k"
  shows "k = take (length k) x \<and> length k \<le> length x"
proof (cases "length k \<le> length x")
  case True
  then show ?thesis using assms(1) by simp
next
  case False
  then have "length x < length k" by simp
  then have "(take (length k) (x @ CHR ''('' # y)) ! length x = CHR ''(''"
    by (simp add: nth_append)
  then have "k ! length x = CHR ''(''" using assms(1) by simp
  then have "CHR ''('' \<in> set k" using \<open>length x < length k\<close> by (metis nth_mem)
  then show ?thesis using assms(2) by simp
qed

definition plain_key :: "string \<Rightarrow> bool" where
  "plain_key k =
     (k \<noteq> [] \<and> CHR ''('' \<notin> set k
      \<and> map lower k \<notin> {''u'', ''r'', ''l'', ''ur'', ''rl'', ''url''})"

lemma url_open_cases:
  assumes "url_open h"
  obtains c0 c1 c2 where "h = [c0, c1, c2, CHR ''('']"
    "lower c0 = CHR ''u''" "lower c1 = CHR ''r''" "lower c2 = CHR ''l''"
proof -
  from assms have l: "length h = 4" and m: "map lower h = ''url(''"
    by (simp_all add: url_open_def)
  from l obtain c0 c1 c2 c3 where h: "h = [c0, c1, c2, c3]"
    by (auto simp add: numeral_eq_Suc length_Suc_conv)
  with m have "lower c0 = CHR ''u''" "lower c1 = CHR ''r''" "lower c2 = CHR ''l''"
    "c3 = CHR ''(''" by simp_all
  with h that show ?thesis by blast
qed

lemma no_occurrence_in_url_open:
  assumes "url_open h" "plain_key k"
  shows "index_of k (h @ s) = map_option (\<lambda>n. n + 4) (index_of k s)"
proof -
  from assms(1) obtain c0 c1 c2 where h: "h = [c0, c1, c2, CHR ''('']"
    and l: "lower c0 = CHR ''u''" "lower c1 = CHR ''r''" "lower c2 = CHR ''l''"
    by (rule url_open_cases)
  from assms(2) have k: "k \<noteq> []" "CHR ''('' \<notin> set k"
    and n: "map lower k \<notin> {''u'', ''r'', ''l'', ''ur'', ''rl'', ''url''}"
    by (simp_all add: plain_key_def)
  have 0: "take (length k) (c0 # c1 # c2 # CHR ''('' # s) \<noteq> k"
  proof
    assume "take (length k) (c0 # c1 # c2 # CHR ''('' # s) = k"
    then have "take (length k) ([c0, c1, c2] @ CHR ''('' # s) = k" by simp
    from take_before_paren [OF this k(2)]
    have "k = take (length k) [c0, c1, c2]" "length k \<le> 3" by simp_all
    then have "k = [c0] \<or> k = [c0, c1] \<or> k = [c0, c1, c2]"
      using k(1) by (cases k; cases "tl k"; cases "tl (tl k)") auto
    then show False using n l by auto
  qed
  have 1: "take (length k) (c1 # c2 # CHR ''('' # s) \<noteq> k"
  proof
    assume "take (length k) (c1 # c2 # CHR ''('' # s) = k"
    then have "take (length k) ([c1, c2] @ CHR ''('' # s) = k" by simp
    from take_before_paren [OF this k(2)]
    have "k = take (length k) [c1, c2]" "length k \<le> 2" by simp_all
    then have "k = [c1] \<or> k = [c1, c2]"
      using k(1) by (cases k; cases "tl k") auto
    then show False using n l by auto
  qed
  have 2: "take (length k) (c2 # CHR ''('' # s) \<noteq> k"
  proof
    assume "take (length k) (c2 # CHR ''('' # s) = k"
    then have "take (length k) ([c2] @ CHR ''('' # s) = k" by simp
    from take_before_paren [OF this k(2)]
    have "k = take (length k) [c2]" "length k \<le> 1" by simp_all
    then have "k = [c2]" using k(1) by (cases k) auto
    then show False using n l by auto
  qed
  have 3: "take (length k) (CHR ''('' # s) \<noteq> k"
  proof
    assume "take (length k) (CHR ''('' # s) = k"
    then have "take (length k) ([] @ CHR ''('' # s) = k" by simp
    from take_before_paren [OF this k(2)] show False using k(1) by simp
  qed
  show ?thesis
    unfolding h
    by (simp only: append_Cons append_Nil index_of_skip [OF 0] index_of_skip [OF 1]
        index_of_skip [OF 2] index_of_skip [OF 3] option.map_comp comp_def)
       (simp add: numeral_eq_Suc)
qed

lemma index_of_match:
  assumes "url_open h" "plain_key k" "\<forall>c \<in> set k. url_char c"
    and "take_quote (q1 @ x) = (q1, x)"
  shows "index_of k (h @ q1 @ k @ q) = Some (length (h @ q1))"
proof -
  have "index_of k (q1 @ k @ q) = Some (length q1)"
  proof (cases q1)
    case Nil
    then show ?thesis by (simp add: index_of_here)
  next
    case (Cons c r)
    with assms(4) have q1: "q1 = [c]" "is_quote c"
      by (auto simp add: take_quote_Cons split: if_splits)
    have "hd k \<noteq> c" using assms(2,3) q1(2) by (cases k) (auto simp add: plain_key_def url_char_def)
    then have "take (length k) (c # k @ q) \<noteq> k"
      using assms(2) by (cases k) (auto simp add: plain_key_def)
    then show ?thesis using q1 by (simp add: index_of_here del: index_of.simps add: index_of_skip)
  qed
  then show ?thesis
    using no_occurrence_in_url_open [OF assms(1,2), of "q1 @ k @ q"] assms(1)
    by (simp add: url_open_def)
qed

lemma js_replace_match:
  assumes "url_open h" "plain_key k" "\<forall>c \<in> set k. url_char c"
    and "take_quote (q1 @ x) = (q1, x)" and "CHR ''$'' \<notin> set v"
  shows "js_replace (h @ q1 @ k @ q) k v = h @ q1 @ v @ q"
  using index_of_match [OF assms(1-4), of q] by (simp add: js_replace_def get_substitution_plain [OF assms(5)])


subsection \<open>Source maps that the second pass reads as the first\<close>

text \<open>
  \<open>plain_sourceMap\<close>: every mapped value maps to itself and has none of the characters
  \<open>'\<close>, \<open>"\<close>, \<open>)\<close> and \<open>$\<close>, and every key is a \<open>plain_key\<close>. \<open>mapped m t\<close> is what
  such a map makes of a token.
\<close>

definition plain_sourceMap :: "(string \<rightharpoonup> string) \<Rightarrow> bool" where
  "plain_sourceMap m =
     (\<forall>k v. m k = Some v \<longrightarrow>
        m v = Some v \<and> plain_key k \<and> (\<forall>c \<in> set v. url_char c \<and> c \<noteq> CHR ''$''))"

definition mapped :: "(string \<rightharpoonup> string) \<Rightarrow> string \<Rightarrow> string" where
  "mapped m t = (case m t of None \<Rightarrow> t | Some v \<Rightarrow> v)"

lemma mapped_idem: "plain_sourceMap m \<Longrightarrow> mapped m (mapped m t) = mapped m t"
  by (auto simp add: mapped_def plain_sourceMap_def split: option.splits)

lemma mapped_url_char:
  "plain_sourceMap m \<Longrightarrow> \<forall>c \<in> set t. url_char c \<Longrightarrow> \<forall>c \<in> set (mapped m t). url_char c"
  by (auto simp add: mapped_def plain_sourceMap_def split: option.splits)

lemma mapped_Nil: "plain_sourceMap m \<Longrightarrow> mapped m t = [] \<longleftrightarrow> t = []"
proof (cases "m t")
  case None
  then show ?thesis by (simp add: mapped_def)
next
  case (Some v)
  assume "plain_sourceMap m"
  with Some have "plain_key t" "plain_key v" by (auto simp add: plain_sourceMap_def)
  then show ?thesis using Some by (simp add: mapped_def plain_key_def)
qed

lemma mapped_changed:
  "plain_sourceMap m \<Longrightarrow> mapped m t \<noteq> t \<Longrightarrow> CHR ''('' \<notin> set (mapped m t)"
proof (cases "m t")
  case None
  then show "mapped m t \<noteq> t \<Longrightarrow> ?thesis" by (simp add: mapped_def)
next
  case (Some v)
  assume "plain_sourceMap m"
  with Some have "plain_key v" by (auto simp add: plain_sourceMap_def)
  then show ?thesis using Some by (simp add: mapped_def plain_key_def)
qed

lemma css_url_match_Nil [simp]: "css_url_match [] = None"
  by (simp add: css_url_match_def starts_url)

lemma mapCssUrls_Nil [simp]: "mapCssUrls [] m = []"
  by (simp add: mapCssUrls_def)

lemma mapCssUrls_None:
  "css_url_match (c # cs) = None \<Longrightarrow> mapCssUrls (c # cs) m = c # mapCssUrls cs m"
  by (simp add: mapCssUrls_def)

lemma mapCssUrls_Some:
  assumes "plain_sourceMap m" and "css_url_match s = Some (p, t, q, rest)"
  shows "mapCssUrls s m = p @ mapped m t @ q @ mapCssUrls rest m"
proof -
  from css_url_match_shape [OF assms(2)] obtain h q1 q2 r where
    s: "s = h @ r" and p: "p = h @ q1" and q: "q = q2 @ '')''" and h: "url_open h"
    and sh: "match_shape q1 t q2 rest r" by blast
  have cb: "(case m t of Some v \<Rightarrow> js_replace (p @ t @ q) t v | None \<Rightarrow> p @ t @ q)
      = p @ mapped m t @ q"
  proof (cases "m t")
    case None
    then show ?thesis by (simp add: mapped_def)
  next
    case (Some v)
    with assms(1) have k: "plain_key t" and v: "CHR ''$'' \<notin> set v"
      by (auto simp add: plain_sourceMap_def)
    from sh have "\<forall>c \<in> set t. url_char c"
      and "take_quote (q1 @ t @ q2 @ CHR '')'' # rest) = (q1, t @ q2 @ CHR '')'' # rest)"
      unfolding match_shape_def by auto
    from js_replace_match [OF h k this v, of q]
    show ?thesis using Some p by (simp add: mapped_def)
  qed
  obtain c cs where c: "s = c # cs" using assms(2) by (cases s) auto
  show ?thesis
    using assms(2) cb unfolding c mapCssUrls_def by simp
qed

lemma css_url_match_hd: "css_url_match (c # cs) = Some x \<Longrightarrow> lower c = CHR ''u''"
  by (auto simp add: css_url_match_def starts_url split: if_splits)

lemma mapCssUrls_skip: "lower c \<noteq> CHR ''u'' \<Longrightarrow> mapCssUrls (c # cs) m = c # mapCssUrls cs m"
  by (rule mapCssUrls_None) (metis css_url_match_hd not_Some_eq)

lemma mapCssUrls_hd:
  assumes "plain_sourceMap m"
  shows "\<exists>z. mapCssUrls (c # cs) m = c # z"
proof (cases "css_url_match (c # cs)")
  case None
  then show ?thesis by (simp add: mapCssUrls_None)
next
  case (Some x)
  obtain p t q rest where x: "x = (p, t, q, rest)" by (cases x) auto
  from css_url_match_shape [OF Some [unfolded x]] obtain h q1 r where
    "c # cs = h @ r" "p = h @ q1" "url_open h" by blast
  then obtain z where "p = c # z" by (cases h) (auto simp add: url_open_def)
  then show ?thesis using mapCssUrls_Some [OF assms Some [unfolded x]] by simp
qed


subsection \<open>What the second pass sees\<close>

text \<open>
  A match starts with the letter u, so the rewritten text starts like the text on
  every pattern without that letter; and whether the text after \<open>url(\<close> and a quote
  closes as the pattern wants it (\<open>closes\<close>) is the same before and after.
\<close>

lemma starts_ci_Cons:
  "starts_ci (a # P) s \<longleftrightarrow> (\<exists>c r. s = c # r \<and> lower c = a \<and> starts_ci P r)"
  by (cases s) (auto simp add: starts_ci_def)

lemma starts_ci_Nil [simp]: "starts_ci [] s"
  by (simp add: starts_ci_def)

lemma starts_ci_mapCssUrls:
  assumes "plain_sourceMap m" "CHR ''u'' \<notin> set P"
  shows "starts_ci P (mapCssUrls s m) = starts_ci P s"
  using assms(2)
proof (induction P arbitrary: s)
  case Nil
  then show ?case by simp
next
  case (Cons a P)
  show ?case
  proof (cases s)
    case Nil
    then show ?thesis by (simp add: starts_ci_Cons)
  next
    case (Cons c r)
    show ?thesis
    proof (cases "lower c = CHR ''u''")
      case True
      obtain z where "mapCssUrls (c # r) m = c # z"
        using mapCssUrls_hd [OF assms(1)] by blast
      then show ?thesis using True Cons.prems Cons by (auto simp add: starts_ci_Cons)
    next
      case False
      then show ?thesis
        using Cons.IH [of r] Cons.prems Cons by (simp add: mapCssUrls_skip starts_ci_Cons)
    qed
  qed
qed

definition closes :: "string \<Rightarrow> bool" where
  "closes y = (case snd (take_quote (dropWhile url_char y)) of
                c # rest \<Rightarrow> c = CHR '')''
              | [] \<Rightarrow> False)"

lemma css_url_match_None_iff:
  "css_url_match s = None \<longleftrightarrow>
     \<not> (starts_ci ''url('' s
        \<and> \<not> starts_ci ''data:'' (snd (take_quote (drop 4 s)))
        \<and> closes (snd (take_quote (drop 4 s))))"
  by (auto simp add: css_url_match_def closes_def split: prod.splits list.splits)

lemma closes_url_char: "url_char c \<Longrightarrow> closes (c # y) = closes y"
  by (simp add: closes_def)

lemma closes_url_chars: "\<forall>c \<in> set x. url_char c \<Longrightarrow> closes (x @ y) = closes y"
  by (induction x) (simp_all add: closes_url_char)

lemma closes_delim:
  "\<not> url_char c \<Longrightarrow>
   closes (c # y) = (if is_quote c then (\<exists>z. y = CHR '')'' # z) else True)"
  by (cases y) (auto simp add: closes_def take_quote_Cons url_char_def)

lemma paren_hd_mapCssUrls:
  assumes "plain_sourceMap m"
  shows "(\<exists>z. mapCssUrls y m = CHR '')'' # z) \<longleftrightarrow> (\<exists>z. y = CHR '')'' # z)"
proof (cases y)
  case Nil
  then show ?thesis by simp
next
  case (Cons c r)
  then show ?thesis using mapCssUrls_hd [OF assms, of c r] by auto
qed

definition quote_opt :: "string \<Rightarrow> bool" where
  "quote_opt q = (q = [] \<or> (\<exists>c. q = [c] \<and> is_quote c))"

lemma take_quote_quote_opt: "take_quote s = (q, r) \<Longrightarrow> quote_opt q"
  by (cases s) (auto simp add: take_quote_Cons quote_opt_def split: if_splits)

lemma quote_opt_url_char: "quote_opt q \<Longrightarrow> c \<in> set q \<Longrightarrow> \<not> url_char c"
  by (auto simp add: quote_opt_def url_char_def)

lemma url_open_url_char: "url_open h \<Longrightarrow> \<forall>c \<in> set h. url_char c"
proof
  fix c assume "url_open h" "c \<in> set h"
  then consider "lower c = CHR ''u''" | "lower c = CHR ''r''" | "lower c = CHR ''l''"
    | "c = CHR ''(''"
    by (auto elim!: url_open_cases)
  then show "url_char c"
    by cases (auto simp add: url_char_def is_quote_def)
qed

lemma closes_shape:
  assumes "quote_opt q1" "\<forall>c \<in> set t. url_char c" "quote_opt q2"
  shows "closes (q1 @ t @ q2 @ CHR '')'' # z) \<longleftrightarrow> q1 = [] \<or> (t = [] \<and> q2 = [])"
proof -
  have d: "closes (q2 @ CHR '')'' # z)"
    using assms(3) by (auto simp add: quote_opt_def closes_delim url_char_def is_quote_def)
  show ?thesis
  proof (cases q1)
    case Nil
    then show ?thesis using d assms(2) by (simp add: closes_url_chars)
  next
    case (Cons c r)
    with assms(1) have q1: "q1 = [c]" "is_quote c" by (auto simp add: quote_opt_def)
    have nq: "\<not> url_char c" using q1(2) by (simp add: url_char_def)
    show ?thesis
    proof (cases t)
      case Nil
      then show ?thesis
        using q1 nq assms(3) by (auto simp add: closes_delim quote_opt_def is_quote_def)
    next
      case (Cons a t')
      then have "a \<noteq> CHR '')''" using assms(2) by (auto simp add: url_char_def)
      then show ?thesis using q1 nq Cons by (simp add: closes_delim)
    qed
  qed
qed

lemma match_shape_take_quote:
  "match_shape q1 t q2 rest r
   \<Longrightarrow> take_quote (q1 @ t @ q2 @ CHR '')'' # rest) = (q1, t @ q2 @ CHR '')'' # rest)"
  unfolding match_shape_def by metis

lemma match_shape_quotes:
  "match_shape q1 t q2 rest r \<Longrightarrow> quote_opt q1 \<and> quote_opt q2 \<and> (\<forall>c \<in> set t. url_char c)"
  unfolding match_shape_def by (blast intro: take_quote_quote_opt)

lemma closes_mapCssUrls:
  assumes "plain_sourceMap m"
  shows "closes (mapCssUrls y m) = closes y"
proof (induction y rule: length_induct)
  case (1 y)
  show ?case
  proof (cases y)
    case Nil
    then show ?thesis by simp
  next
    case (Cons c cs)
    show ?thesis
    proof (cases "css_url_match y")
      case None
      then have M: "mapCssUrls y m = c # mapCssUrls cs m"
        using Cons by (simp add: mapCssUrls_None)
      have IH: "closes (mapCssUrls cs m) = closes cs" using 1 Cons by simp
      show ?thesis
      proof (cases "url_char c")
        case True
        then show ?thesis using M IH Cons by (simp add: closes_url_char)
      next
        case False
        then show ?thesis
          using M Cons paren_hd_mapCssUrls [OF assms, of cs] by (simp add: closes_delim)
      qed
    next
      case (Some x)
      obtain p t q rest where x: "x = (p, t, q, rest)" by (cases x) auto
      from css_url_match_shape [OF Some [unfolded x]] obtain h q1 q2 r where
        s: "y = h @ r" and p: "p = h @ q1" and q: "q = q2 @ '')''" and h: "url_open h"
        and sh: "match_shape q1 t q2 rest r" by blast
      from match_shape_quotes [OF sh] have qs: "quote_opt q1" "quote_opt q2"
        and t: "\<forall>c \<in> set t. url_char c" by simp_all
      have r: "r = q1 @ t @ q2 @ CHR '')'' # rest" using sh by (simp add: match_shape_def)
      have "closes (mapCssUrls y m)
          = closes (h @ q1 @ mapped m t @ q2 @ CHR '')'' # mapCssUrls rest m)"
        using mapCssUrls_Some [OF assms Some [unfolded x]] p q by simp
      also have "\<dots> = (q1 = [] \<or> (mapped m t = [] \<and> q2 = []))"
        using closes_shape [OF qs(1) mapped_url_char [OF assms t] qs(2)]
        by (simp add: closes_url_chars [OF url_open_url_char [OF h]])
      also have "\<dots> = (q1 = [] \<or> (t = [] \<and> q2 = []))"
        by (simp add: mapped_Nil [OF assms])
      also have "\<dots> = closes y"
        unfolding s r using closes_shape [OF qs(1) t qs(2)]
        by (simp add: closes_url_chars [OF url_open_url_char [OF h]])
      finally show ?thesis .
    qed
  qed
qed


lemma take_quote_mapCssUrls:
  assumes "plain_sourceMap m"
  shows "take_quote (mapCssUrls r m) = (fst (take_quote r), mapCssUrls (snd (take_quote r)) m)"
proof (cases r)
  case Nil
  then show ?thesis by simp
next
  case (Cons c r')
  show ?thesis
  proof (cases "is_quote c")
    case True
    then have "lower c \<noteq> CHR ''u''" by (auto simp add: is_quote_def)
    then show ?thesis using True Cons by (simp add: mapCssUrls_skip take_quote_Cons)
  next
    case False
    obtain z where "mapCssUrls (c # r') m = c # z" using mapCssUrls_hd [OF assms] by blast
    then show ?thesis using False Cons by (simp add: take_quote_Cons)
  qed
qed

lemma mapCssUrls_url_open:
  assumes "url_open h" "css_url_match (h @ r) = None"
  shows "mapCssUrls (h @ r) m = h @ mapCssUrls r m"
proof -
  from assms(1) obtain c0 c1 c2 where h: "h = [c0, c1, c2, CHR ''('']"
    and l: "lower c0 = CHR ''u''" "lower c1 = CHR ''r''" "lower c2 = CHR ''l''"
    by (rule url_open_cases)
  have "mapCssUrls (c0 # c1 # c2 # CHR ''('' # r) m = c0 # mapCssUrls (c1 # c2 # CHR ''('' # r) m"
    using assms(2) unfolding h by (simp add: mapCssUrls_None)
  then show ?thesis unfolding h using l by (simp add: mapCssUrls_skip)
qed

lemma starts_ci_token:
  assumes "\<forall>a \<in> set P. url_char a" "\<not> url_char d"
  shows "starts_ci P (t @ d # z) = starts_ci P t"
  using assms(1)
proof (induction P arbitrary: t)
  case Nil
  then show ?case by simp
next
  case (Cons a P)
  show ?case
  proof (cases t)
    case Nil
    have "lower d \<noteq> a" using Cons.prems assms(2) lower_not_url_char [OF assms(2)] by auto
    then show ?thesis using Nil by (simp add: starts_ci_Cons)
  next
    case (Cons c t')
    then show ?thesis using Cons.IH [of t'] Cons.prems by (simp add: starts_ci_Cons)
  qed
qed

lemma starts_url_paren: "starts_ci ''url('' t \<Longrightarrow> CHR ''('' \<in> set t"
  by (auto simp add: starts_ci_Cons)

lemma mapCssUrls_token:
  assumes "CHR ''('' \<notin> set t" "\<not> url_char d"
  shows "mapCssUrls (t @ d # z) m = t @ mapCssUrls (d # z) m"
  using assms(1)
proof (induction t)
  case Nil
  then show ?case by simp
next
  case (Cons c t)
  have "\<not> starts_ci ''url('' ((c # t) @ d # z)"
    using starts_ci_token [of "''url(''" d "c # t" z] assms(2) starts_url_paren [of "c # t"] Cons.prems
    by (auto simp add: url_char_def is_quote_def)
  then have "css_url_match (c # t @ d # z) = None"
    by (simp add: css_url_match_None_iff)
  then show ?case using Cons by (simp add: mapCssUrls_None)
qed

lemma mapCssUrls_delim:
  "\<not> url_char d \<Longrightarrow> mapCssUrls (d # z) m = d # mapCssUrls z m"
  using lower_not_url_char [of d]
  by (intro mapCssUrls_skip) (auto simp add: url_char_def is_quote_def)

lemma mapCssUrls_quote_opt:
  "quote_opt q \<Longrightarrow> mapCssUrls (q @ z) m = q @ mapCssUrls z m"
  by (auto simp add: quote_opt_def mapCssUrls_delim url_char_def)

lemma second_pass_None:
  assumes "plain_sourceMap m" "css_url_match s = None"
  shows "css_url_match (mapCssUrls s m) = None"
proof (cases "starts_ci ''url('' s")
  case True
  define h where "h = take 4 s"
  define r where "r = drop 4 s"
  have s: "s = h @ r" and h: "url_open h"
    using url_open_take [OF True] by (simp_all add: h_def r_def)
  have M: "mapCssUrls s m = h @ mapCssUrls r m"
    using assms(2) unfolding s by (rule mapCssUrls_url_open [OF h])
  have "starts_ci ''data:'' (snd (take_quote r)) \<or> \<not> closes (snd (take_quote r))"
    using assms(2) True by (simp add: css_url_match_None_iff r_def)
  then have "starts_ci ''data:'' (mapCssUrls (snd (take_quote r)) m)
      \<or> \<not> closes (mapCssUrls (snd (take_quote r)) m)"
    using starts_ci_mapCssUrls [OF assms(1), of "''data:''"] closes_mapCssUrls [OF assms(1)]
    by simp
  moreover have "drop 4 (h @ mapCssUrls r m) = mapCssUrls r m"
    using url_open_take_drop [OF h] by blast
  ultimately show ?thesis
    unfolding M css_url_match_None_iff
    by (simp only: take_quote_mapCssUrls [OF assms(1)] snd_conv) blast
next
  case False
  show ?thesis
  proof (cases s)
    case Nil
    then show ?thesis by simp
  next
    case (Cons c cs)
    then have M: "mapCssUrls (c # cs) m = c # mapCssUrls cs m"
      using assms(2) by (simp add: mapCssUrls_None)
    have "starts_ci ''rl('' (mapCssUrls cs m) = starts_ci ''rl('' cs"
      using starts_ci_mapCssUrls [OF assms(1), of "''rl(''"] by simp
    then have "\<not> starts_ci ''url('' (mapCssUrls s m)"
      using False unfolding Cons M by (simp add: starts_ci_Cons [of "CHR ''u''"])
    then show ?thesis by (simp add: css_url_match_None_iff)
  qed
qed

lemma second_pass_Some:
  assumes "plain_sourceMap m" "css_url_match s = Some (p, t, q, rest)"
    and IH: "mapCssUrls (mapCssUrls rest m) m = mapCssUrls rest m"
  shows "mapCssUrls (mapCssUrls s m) m = mapCssUrls s m"
proof -
  from css_url_match_shape [OF assms(2)] obtain h q1 q2 r where
    s: "s = h @ r" and p: "p = h @ q1" and q: "q = q2 @ '')''" and h: "url_open h"
    and sh: "match_shape q1 t q2 rest r" by blast
  from match_shape_quotes [OF sh] have qs: "quote_opt q1" "quote_opt q2"
    and t: "\<forall>c \<in> set t. url_char c" by simp_all
  define t' where "t' = mapped m t"
  define z where "z = mapCssUrls rest m"
  define r' where "r' = q1 @ t' @ q2 @ CHR '')'' # z"
  have M: "mapCssUrls s m = h @ r'"
    using mapCssUrls_Some [OF assms(1,2)] p q by (simp add: r'_def t'_def z_def)
  have t': "\<forall>c \<in> set t'. url_char c"
    unfolding t'_def by (rule mapped_url_char [OF assms(1) t])
  have q2z: "take_quote (q2 @ CHR '')'' # z) = (q2, CHR '')'' # z)"
    using qs(2) by (auto simp add: quote_opt_def take_quote_Cons is_quote_def)
  have nd: "\<not> url_char (hd (q2 @ CHR '')'' # z))" "q2 @ CHR '')'' # z \<noteq> []"
    using qs(2) by (auto simp add: quote_opt_def url_char_def)
  then obtain d z' where dz: "q2 @ CHR '')'' # z = d # z'" "\<not> url_char d"
    by (cases "q2 @ CHR '')'' # z") auto
  have q1r: "take_quote r' = (q1, t' @ q2 @ CHR '')'' # z)"
  proof (cases q1)
    case (Cons c x)
    then show ?thesis using qs(1) by (auto simp add: r'_def quote_opt_def take_quote_Cons)
  next
    case Nil
    show ?thesis
    proof (cases t')
      case (Cons c x)
      then have "\<not> is_quote c" using t' by (auto simp add: url_char_def)
      then show ?thesis using Cons Nil by (simp add: r'_def take_quote_Cons)
    next
      case Nil': Nil
      then have "t = []" using mapped_Nil [OF assms(1), of t] by (simp add: t'_def)
      then have "take_quote (q2 @ CHR '')'' # rest) = ([], q2 @ CHR '')'' # rest)"
        using match_shape_take_quote [OF sh] Nil by simp
      moreover have "take_quote (q2 @ CHR '')'' # rest) = (q2, CHR '')'' # rest)"
        using sh unfolding match_shape_def by blast
      ultimately have "q2 = []" by simp
      then show ?thesis using Nil Nil' by (simp add: r'_def take_quote_Cons is_quote_def)
    qed
  qed
  have data_t: "starts_ci ''data:'' (t' @ q2 @ CHR '')'' # z) = starts_ci ''data:'' t'"
    unfolding dz by (rule starts_ci_token [OF _ dz(2)]) (auto simp add: url_char_def is_quote_def)
  show ?thesis
  proof (cases "starts_ci ''data:'' t'")
    case False
    have "match_shape q1 t' q2 z r'"
      unfolding match_shape_def using q1r t' q2z False data_t by (simp add: r'_def)
    then have "css_url_match (h @ r') = Some (h @ q1, t', q2 @ '')'', z)"
      by (rule match_shape_match [OF h])
    from mapCssUrls_Some [OF assms(1) this]
    show ?thesis
      unfolding M using IH mapped_idem [OF assms(1), of t]
      by (simp add: r'_def t'_def z_def)
  next
    case True
    have "drop 4 (h @ r') = r'" using url_open_take_drop [OF h] by blast
    then have "css_url_match (h @ r') = None"
      using True data_t q1r unfolding css_url_match_None_iff by simp
    then have 1: "mapCssUrls (h @ r') m = h @ mapCssUrls r' m"
      by (rule mapCssUrls_url_open [OF h])
    have "\<not> starts_ci ''data:'' (t @ q2 @ CHR '')'' # rest)"
      using sh unfolding match_shape_def by blast
    moreover have "starts_ci ''data:'' (t @ q2 @ CHR '')'' # rest) = starts_ci ''data:'' t"
    proof -
      obtain d0 z0 where "q2 @ CHR '')'' # rest = d0 # z0" "\<not> url_char d0"
        using qs(2) by (cases q2) (auto simp add: quote_opt_def url_char_def)
      then show ?thesis
        using starts_ci_token [of "''data:''" d0 t z0]
        by (auto simp add: url_char_def is_quote_def)
    qed
    ultimately have "t' \<noteq> t" using True by auto
    then have np: "CHR ''('' \<notin> set t'"
      unfolding t'_def by (rule mapped_changed [OF assms(1)])
    have "mapCssUrls r' m = q1 @ mapCssUrls (t' @ d # z') m"
      using mapCssUrls_quote_opt [OF qs(1)] dz by (simp add: r'_def)
    also have "\<dots> = q1 @ t' @ mapCssUrls (q2 @ CHR '')'' # z) m"
      using mapCssUrls_token [OF np dz(2)] dz by simp
    also have "\<dots> = q1 @ t' @ q2 @ CHR '')'' # mapCssUrls z m"
      using mapCssUrls_quote_opt [OF qs(2)] by (simp add: mapCssUrls_delim url_char_def)
    finally show ?thesis
      unfolding M 1 using IH by (simp add: r'_def z_def)
  qed
qed

lemma mapCssUrls_idem:
  assumes "plain_sourceMap m"
  shows "mapCssUrls (mapCssUrls s m) m = mapCssUrls s m"
proof (induction s rule: length_induct)
  case (1 s)
  show ?case
  proof (cases "css_url_match s")
    case None
    show ?thesis
    proof (cases s)
      case Nil
      then show ?thesis by simp
    next
      case (Cons c cs)
      have "css_url_match (c # mapCssUrls cs m) = None"
        using second_pass_None [OF assms None] None Cons by (simp add: mapCssUrls_None)
      then show ?thesis using None Cons 1 by (simp add: mapCssUrls_None)
    qed
  next
    case (Some x)
    obtain p t q rest where x: "x = (p, t, q, rest)" by (cases x) auto
    have "length rest < length s" using Some x css_url_match_shorter by blast
    then have "mapCssUrls (mapCssUrls rest m) m = mapCssUrls rest m" using 1 by blast
    then show ?thesis by (rule second_pass_Some [OF assms Some [unfolded x]])
  qed
qed



lemma map_src_as_update:
  "map_src m attrs =
     (case map_of attrs ''src'' of
        Some x \<Rightarrow> if x \<noteq> [] then AList.update ''src'' (mapped m x) attrs else attrs
      | None \<Rightarrow> attrs)"
  by (auto simp add: map_src_def mapped_def AList.update_triv split: option.splits)

lemma map_src_fixed:
  assumes "plain_sourceMap m"
    and "\<And>x. map_of attrs ''src'' = Some x \<Longrightarrow> mapped m x = x"
  shows "map_src m attrs = attrs"
  using assms(2) by (auto simp add: map_src_as_update AList.update_triv split: option.splits)

lemma map_css_attribute_fixed:
  assumes "\<And>x. map_of attrs name = Some x \<Longrightarrow> mapCssUrls x m = x"
  shows "map_css_attribute name m attrs = attrs"
  using assms by (auto simp add: map_css_attribute_def AList.update_triv split: option.splits)

lemma map_of_map_src:
  "map_of (map_src m attrs) k =
     (if k = ''src'' then map_option (\<lambda>x. if x \<noteq> [] then mapped m x else x) (map_of attrs k)
      else map_of attrs k)"
  by (auto simp add: map_src_as_update AList.update_conv' split: option.splits)

lemma map_of_map_css_attribute:
  "map_of (map_css_attribute name m attrs) k =
     (if k = name
      then map_option (\<lambda>x. if x \<noteq> [] then mapCssUrls x m else x) (map_of attrs k)
      else map_of attrs k)"
  by (auto simp add: map_css_attribute_def AList.update_conv' split: option.splits)

subsection \<open>Attributes and trees\<close>

text \<open>The three attribute steps of \<open>mapNodeAttributes\<close>, in its order.\<close>

definition map_attributes :: "(string \<rightharpoonup> string) \<Rightarrow> (string \<times> string) list \<Rightarrow> (string \<times> string) list" where
  "map_attributes m attrs =
     map_css_attribute ''_cssText'' m (map_css_attribute ''style'' m (map_src m attrs))"

lemma map_attributes_idem:
  assumes "plain_sourceMap m"
  shows "map_attributes m (map_attributes m attrs) = map_attributes m attrs"
proof -
  define b where "b = map_attributes m attrs"
  have 1: "map_src m b = b"
  proof (rule map_src_fixed [OF assms])
    fix x assume "map_of b ''src'' = Some x"
    then show "mapped m x = x"
      by (auto simp add: b_def map_attributes_def map_of_map_src map_of_map_css_attribute
          mapped_idem [OF assms] mapped_Nil [OF assms] split: if_splits)
  qed
  have 2: "map_css_attribute ''style'' m b = b"
  proof (rule map_css_attribute_fixed)
    fix x assume "map_of b ''style'' = Some x"
    then show "mapCssUrls x m = x"
      by (auto simp add: b_def map_attributes_def map_of_map_src map_of_map_css_attribute
          mapCssUrls_idem [OF assms] split: if_splits)
  qed
  have 3: "map_css_attribute ''_cssText'' m b = b"
  proof (rule map_css_attribute_fixed)
    fix x assume "map_of b ''_cssText'' = Some x"
    then show "mapCssUrls x m = x"
      by (auto simp add: b_def map_attributes_def map_of_map_src map_of_map_css_attribute
          mapCssUrls_idem [OF assms] split: if_splits)
  qed
  show ?thesis
    unfolding b_def [symmetric] by (simp add: map_attributes_def 1 2 3)
qed

lemma mapNode_Node:
  "mapNode (Node i t attrs tc st cs x) m =
     Node i t
       (if t = Element then map_attributes m attrs else attrs)
       (if t = Text \<and> st
        then map_option (\<lambda>text. if text \<noteq> [] then mapCssUrls text m else text) tc
        else tc)
       st (map_option (map (\<lambda>childNode. mapNode childNode m)) cs) x"
  by (cases cs; cases tc) (simp_all add: Let_def map_attributes_def)

lemma mapNode_idem:
  assumes "plain_sourceMap m"
  shows "mapNode (mapNode node m) m = mapNode node m"
proof (induction node)
  case (Node i t attrs tc st cs x)
  have kids: "map_option (map (\<lambda>c. mapNode c m)) (map_option (map (\<lambda>c. mapNode c m)) cs)
      = map_option (map (\<lambda>c. mapNode c m)) cs"
  proof (cases cs)
    case None
    then show ?thesis by simp
  next
    case (Some children)
    have "mapNode (mapNode c m) m = mapNode c m" if "c \<in> set children" for c
      using Node that Some by auto
    then show ?thesis using Some by simp
  qed
  have tx: "map_option (\<lambda>text. if text \<noteq> [] then mapCssUrls text m else text)
        (map_option (\<lambda>text. if text \<noteq> [] then mapCssUrls text m else text) tc)
      = map_option (\<lambda>text. if text \<noteq> [] then mapCssUrls text m else text) tc"
    by (cases tc) (simp_all add: mapCssUrls_idem [OF assms])
  show ?case
    unfolding mapNode_Node
    by (simp add: kids tx map_attributes_idem [OF assms])
qed




subsection \<open>The matcher against the pattern\<close>

text \<open>
  Every way in which the pattern can match at the start of a text gives the match that
  \<open>css_url_match\<close> returns: the same span, the same captured token, the same rest. Here
  the text is split as the pattern reads it, \<open>url(\<close>, an optional quote, a token
  of characters other than quotes and \<open>)\<close>, an optional quote and \<open>)\<close>, and the negative
  lookahead does not match after \<open>url(\<close>, with or without a quote.
\<close>

lemma css_url_match_complete:
  assumes "url_open h" "quote_opt q1" "\<forall>c \<in> set t. url_char c" "quote_opt q2"
    and "\<not> starts_ci ''data:'' (q1 @ t @ q2 @ CHR '')'' # rest)"
    and "\<not> starts_ci ''data:'' (tl (q1 @ t @ q2 @ CHR '')'' # rest))
         \<or> \<not> is_quote (hd (q1 @ t @ q2 @ CHR '')'' # rest))"
  shows "\<exists>p q. css_url_match (h @ q1 @ t @ q2 @ CHR '')'' # rest) = Some (p, t, q, rest)
           \<and> p @ t @ q = h @ q1 @ t @ q2 @ '')''"
proof -
  define r where "r = q1 @ t @ q2 @ CHR '')'' # rest"
  have q2r: "take_quote (q2 @ CHR '')'' # rest) = (q2, CHR '')'' # rest)"
    using assms(4) by (auto simp add: quote_opt_def take_quote_Cons is_quote_def)
  show ?thesis
  proof (cases "q1 = [] \<and> t = [] \<and> q2 \<noteq> []")
    case True
    then obtain c where c: "q2 = [c]" "is_quote c" using assms(4) by (auto simp add: quote_opt_def)
    have "\<not> starts_ci ''data:'' (CHR '')'' # rest)"
      by (simp add: starts_ci_Cons)
    then have "match_shape [c] [] [] rest r"
      using True c by (simp add: match_shape_def r_def take_quote_Cons is_quote_def)
    from match_shape_match [OF assms(1) this] show ?thesis using True c by (simp add: r_def)
  next
    case False
    have tq: "take_quote r = (q1, t @ q2 @ CHR '')'' # rest)"
    proof (cases q1)
      case (Cons c x)
      then show ?thesis using assms(2) by (auto simp add: r_def quote_opt_def take_quote_Cons)
    next
      case Nil
      show ?thesis
      proof (cases t)
        case (Cons c x)
        then have "\<not> is_quote c" using assms(3) by (auto simp add: url_char_def)
        then show ?thesis using Cons Nil by (simp add: r_def take_quote_Cons)
      next
        case Nil': Nil
        then have "q2 = []" using False Nil by simp
        then show ?thesis using Nil Nil' by (simp add: r_def take_quote_Cons is_quote_def)
      qed
    qed
    have "\<not> starts_ci ''data:'' (t @ q2 @ CHR '')'' # rest)"
    proof (cases q1)
      case Nil
      then show ?thesis using assms(5) by simp
    next
      case (Cons c x)
      then have "q1 = [c]" "is_quote c" using assms(2) by (auto simp add: quote_opt_def)
      then show ?thesis using assms(6) by simp
    qed
    then have "match_shape q1 t q2 rest r"
      using tq assms(3) q2r by (simp add: match_shape_def r_def)
    from match_shape_match [OF assms(1) this] show ?thesis by (simp add: r_def)
  qed
qed


text \<open>Conversely, what \<open>css_url_match\<close> returns is a match of the pattern.\<close>

lemma css_url_match_sound:
  assumes "css_url_match s = Some (p, t, q, rest)"
  shows "\<exists>h q1 q2. s = h @ q1 @ t @ q2 @ CHR '')'' # rest \<and> p = h @ q1 \<and> q = q2 @ '')''
           \<and> url_open h \<and> quote_opt q1 \<and> (\<forall>c \<in> set t. url_char c) \<and> quote_opt q2
           \<and> \<not> starts_ci ''data:'' (drop 4 s)
           \<and> (\<not> starts_ci ''data:'' (tl (drop 4 s)) \<or> \<not> is_quote (hd (drop 4 s)))"
proof -
  from css_url_match_shape [OF assms] obtain h q1 q2 r where
    s: "s = h @ r" and p: "p = h @ q1" and q: "q = q2 @ '')''" and h: "url_open h"
    and sh: "match_shape q1 t q2 rest r" by blast
  from match_shape_quotes [OF sh] have qs: "quote_opt q1" "quote_opt q2"
    and t: "\<forall>c \<in> set t. url_char c" by simp_all
  have r: "r = q1 @ t @ q2 @ CHR '')'' # rest"
    and tq: "take_quote r = (q1, t @ q2 @ CHR '')'' # rest)"
    and nd: "\<not> starts_ci ''data:'' (t @ q2 @ CHR '')'' # rest)"
    using sh unfolding match_shape_def by blast+
  have d: "drop 4 s = r" using url_open_take_drop [OF h] s by blast
  have "\<not> starts_ci ''data:'' r
      \<and> (\<not> starts_ci ''data:'' (tl r) \<or> \<not> is_quote (hd r))"
  proof (cases q1)
    case Nil
    have "take_quote r = ([], r)" "r \<noteq> []" using tq r Nil by simp_all
    then have "\<not> is_quote (hd r)"
      by (cases r) (auto simp add: take_quote_Cons split: if_splits)
    then show ?thesis using nd r Nil by simp
  next
    case (Cons c x)
    then have c: "q1 = [c]" "is_quote c" using qs(1) by (auto simp add: quote_opt_def)
    then have "lower c \<noteq> CHR ''d''" by (auto simp add: is_quote_def)
    then show ?thesis using nd r c by (simp add: starts_ci_Cons)
  qed
  then show ?thesis using s p q h qs t r d by auto
qed


section \<open>Properties of the rewriter\<close>

text \<open>
  The example of the specification, the \<open>data:\<close> example for every source map, and a
  text under a source map without keys.
\<close>

lemma mapCssUrls_spec_example:
  "mapCssUrls ''background: url('http://x/a.png')''
     [''http://x/a.png'' \<mapsto> ''./archive/a.png'']
   = ''background: url('./archive/a.png')''"
  by (simp add: css_eval)

lemma mapCssUrls_data_example:
  "mapCssUrls ''url(data:image/png;base64,AAAA)'' m = ''url(data:image/png;base64,AAAA)''"
  by (simp add: css_eval)

lemma mapCssUrls_match:
  assumes "css_url_match s = Some (p, t, q, rest)"
  shows "mapCssUrls s m =
     (case m t of Some v \<Rightarrow> js_replace (p @ t @ q) t v | None \<Rightarrow> p @ t @ q)
     @ mapCssUrls rest m"
proof -
  obtain c cs where c: "s = c # cs" using assms by (cases s) auto
  show ?thesis using assms unfolding c mapCssUrls_def by simp
qed

lemma mapCssUrls_unmapped: "mapCssUrls s Map.empty = s"
proof (induction s rule: length_induct)
  case (1 s)
  show ?case
  proof (cases "css_url_match s")
    case None
    then show ?thesis using 1 by (cases s) (simp_all add: mapCssUrls_None)
  next
    case (Some x)
    obtain p t q rest where x: "x = (p, t, q, rest)" by (cases x) auto
    have "length rest < length s" using Some x css_url_match_shorter by blast
    then have "mapCssUrls rest Map.empty = rest" using 1 by blast
    moreover have "s = p @ t @ q @ rest" using Some x css_url_match_append by blast
    ultimately show ?thesis
      using mapCssUrls_match [OF Some [unfolded x], of Map.empty] by simp
  qed
qed

text \<open>
  Claim C5, where the code departs from it. The callback replaces the first occurrence
  of the token's text in the matched span, not the captured token, and expands \<open>$\<close>
  patterns of the mapped value: with \<open>u\<close> mapped to \<open>img/u.png\<close> the text \<open>url(u)\<close>
  becomes \<open>img/u.pngrl(u)\<close>, not \<open>url(img/u.png)\<close>, and a mapped value with \<open>$&\<close> comes
  out with the token in its place.
\<close>

theorem mapCssUrls_first_occurrence:
  "mapCssUrls ''url(u)'' [''u'' \<mapsto> ''img/u.png''] = ''img/u.pngrl(u)''
   \<and> mapCssUrls ''url(u)'' [''u'' \<mapsto> ''img/u.png''] \<noteq> ''url(img/u.png)''
   \<and> mapCssUrls ''url(a.png)'' [''a.png'' \<mapsto> ''archive/a$&.png'']
       = ''url(archive/aa.png.png)''"
  by (simp add: css_eval)

text \<open>A snapshot and a source map at which the theorem below is instantiated.\<close>

definition page :: "unit serializedNodeWithId" where
  "page =
     Node 1 Document [] None False
       (Some [Node 2 Element
                [(''src'', ''http://x/a.png''), (''alt'', ''logo''),
                 (''style'', ''background: url('http://x/a.png')'')]
                None False
                (Some [Node 3 Text [] (Some ''p { background: URL(http://x/a.png) }'') True
                         None ()]) ()]) ()"

definition archived :: "string \<rightharpoonup> string" where
  "archived = [''http://x/a.png'' \<mapsto> ''./archive/a.png'',
               ''./archive/a.png'' \<mapsto> ''./archive/a.png'']"

lemma plain_archived: "plain_sourceMap archived"
  by (auto simp add: plain_sourceMap_def archived_def plain_key_def url_char_def is_quote_def
      lower_def split: if_splits)


definition style_text :: "string \<Rightarrow> unit serializedNodeWithId" where
  "style_text css = Node 7 Text [] (Some css) True None ()"

text \<open>
  Claim C9, as amended. Let every mapped value of the source map map to itself and
  contain none of the characters \<open>'\<close>, \<open>"\<close>, \<open>)\<close> and \<open>$\<close>, and let every key be
  non-empty, contain no \<open>(\<close> and be none of \<open>u\<close>, \<open>r\<close>, \<open>l\<close>, \<open>ur\<close>, \<open>rl\<close>, \<open>url\<close> in any
  letter case (\<open>plain_sourceMap\<close>). Then rewriting a tree twice gives the tree of
  rewriting it once, and a second call of \<open>mapSourceEntries\<close> on the snapshot object
  returns the text of the first.
\<close>

theorem rewrite_twice:
  assumes "plain_sourceMap sourceMap"
  shows "mapNode (mapNode node sourceMap) sourceMap = mapNode node sourceMap
    \<and> fst (mapSourceEntries stringify sourceMap
             (snd (mapSourceEntries stringify sourceMap this)))
        = fst (mapSourceEntries stringify sourceMap this)"
  using mapNode_idem [OF assms, of node] mapNode_idem [OF assms, of "snapshot this"]
  by (simp add: mapSourceEntries_def Let_def)

theorem rewrite_twice_witness:
  "plain_sourceMap archived
   \<and> mapNode page archived =
       Node 1 Document [] None False
         (Some [Node 2 Element
                  [(''src'', ''./archive/a.png''), (''alt'', ''logo''),
                   (''style'', ''background: url('./archive/a.png')'')]
                  None False
                  (Some [Node 3 Text [] (Some ''p { background: URL(./archive/a.png) }'') True
                           None ()]) ()]) ()
   \<and> mapNode (mapNode page archived) archived = mapNode page archived"
proof -
  note h = plain_archived
  have e: "mapNode page archived =
       Node 1 Document [] None False
         (Some [Node 2 Element
                  [(''src'', ''./archive/a.png''), (''alt'', ''logo''),
                   (''style'', ''background: url('./archive/a.png')'')]
                  None False
                  (Some [Node 3 Text [] (Some ''p { background: URL(./archive/a.png) }'') True
                           None ()]) ()]) ()"
    by code_simp
  have t: "mapNode (mapNode page archived) archived = mapNode page archived"
    using rewrite_twice [OF h, where node = page] by (rule conjunct1)
  show ?thesis by (intro conjI h e t)
qed

text \<open>
  Source maps in which every mapped value maps to itself, and under which a second pass
  changes the text: a mapped value with \<open>)\<close>, with a quote, with \<open>(\<close> behind \<open>data:\<close>,
  with \<open>$\<close>; an empty key; the key \<open>u\<close>.
\<close>


definition with_paren :: "string \<rightharpoonup> string" where
  "with_paren = [''a'' \<mapsto> ''b)url(a'', ''b)url(a'' \<mapsto> ''b)url(a'']"

definition with_quote :: "string \<rightharpoonup> string" where
  "with_quote = [''a'' \<mapsto> [CHR ''b'', CHR 0x27], [CHR ''b'', CHR 0x27] \<mapsto> [CHR ''b'', CHR 0x27],
                 ''b'' \<mapsto> ''c'', ''c'' \<mapsto> ''c'']"

definition with_data :: "string \<rightharpoonup> string" where
  "with_data = [''a'' \<mapsto> ''data:url(b'', ''data:url(b'' \<mapsto> ''data:url(b'',
                ''b'' \<mapsto> ''c'', ''c'' \<mapsto> ''c'']"

definition with_dollar :: "string \<rightharpoonup> string" where
  "with_dollar = [''a'' \<mapsto> ''$$'', ''$$'' \<mapsto> ''$$'', ''$'' \<mapsto> ''c'', ''c'' \<mapsto> ''c'']"

definition with_empty_key :: "string \<rightharpoonup> string" where
  "with_empty_key = [[] \<mapsto> ''x'', ''x'' \<mapsto> ''x'']"

definition with_key_u :: "string \<rightharpoonup> string" where
  "with_key_u = [''u'' \<mapsto> ''xu'', ''xu'' \<mapsto> ''xu'']"

lemmas cex_maps = with_paren_def with_quote_def with_data_def with_dollar_def
  with_empty_key_def with_key_u_def

text \<open>
  Claim C9 as stated fails. A mapped value that maps to itself can carry the
  delimiters of the pattern, and the second pass then reads a match that the first pass
  has written, or reads the token differently; \<open>$$\<close> in a mapped value is written as
  \<open>$\<close>; under an empty key or the key \<open>u\<close> each pass puts the mapped value in front.
\<close>

theorem rewrite_twice_counterexample:
  "with_paren ''b)url(a'' = Some ''b)url(a''
   \<and> mapNode (style_text ''url(a)'') with_paren = style_text ''url(b)url(a)''
   \<and> mapNode (style_text ''url(b)url(a)'') with_paren = style_text ''url(b)url(b)url(a)''
   \<and> with_quote [CHR ''b'', CHR 0x27] = Some [CHR ''b'', CHR 0x27]
   \<and> with_quote ''c'' = Some ''c''
   \<and> mapNode (style_text ''url(a)'') with_quote
       = style_text [CHR ''u'', CHR ''r'', CHR ''l'', CHR ''('', CHR ''b'', CHR 0x27, CHR '')'']
   \<and> mapNode
         (style_text [CHR ''u'', CHR ''r'', CHR ''l'', CHR ''('', CHR ''b'', CHR 0x27, CHR '')''])
         with_quote
       = style_text [CHR ''u'', CHR ''r'', CHR ''l'', CHR ''('', CHR ''c'', CHR 0x27, CHR '')'']
   \<and> with_data ''data:url(b'' = Some ''data:url(b''
   \<and> with_data ''c'' = Some ''c''
   \<and> mapNode (style_text ''url(a)'') with_data = style_text ''url(data:url(b)''
   \<and> mapNode (style_text ''url(data:url(b)'') with_data = style_text ''url(data:url(c)''
   \<and> with_dollar ''$$'' = Some ''$$''
   \<and> with_dollar ''c'' = Some ''c''
   \<and> mapNode (style_text ''url(a)'') with_dollar = style_text ''url($)''
   \<and> mapNode (style_text ''url($)'') with_dollar = style_text ''url(c)''
   \<and> with_empty_key ''x'' = Some ''x''
   \<and> mapNode (style_text ''url()'') with_empty_key = style_text ''xurl()''
   \<and> mapNode (style_text ''xurl()'') with_empty_key = style_text ''xxurl()''
   \<and> with_key_u ''xu'' = Some ''xu''
   \<and> mapNode (style_text ''url(u)'') with_key_u = style_text ''xurl(u)''
   \<and> mapNode (style_text ''xurl(u)'') with_key_u = style_text ''xxurl(u)''"
  by (simp add: style_text_def css_eval cex_maps)

end
